theory Spec2Isabelle
  imports Complex_Main "HOL-Library.Sublist"
begin

section \<open>Python values shared by the enrichment worker's modules\<close>

text \<open>
  A Python \<open>str\<close> is a sequence of Unicode code points, a \<open>bytes\<close> object a sequence
  of octets. Both are lists of naturals here; an octet is below 256 and a code point is
  at most \<open>0x10FFFF\<close>. Messages of exceptions are ASCII and kept as HOL strings.
\<close>

type_synonym pystr = "nat list"
type_synonym bytes = "nat list"

datatype exc_class =
  Exception | UnicodeEncodeError | TypeError | IndexError | UnboundLocalError
  | HTTPError | NoAudioTrackError | FFmpegError | DatabaseError

datatype error = Err exc_class string

fun str_of :: "error \<Rightarrow> string" where
  "str_of (Err _ m) = m"

fun exc_class_of :: "error \<Rightarrow> exc_class" where
  "exc_class_of (Err c _) = c"

text \<open>Python's \<open>needle in haystack\<close> on strings.\<close>

fun contains :: "'a list \<Rightarrow> 'a list \<Rightarrow> bool" where
  "contains needle [] = (needle = [])"
| "contains needle (h # hs) = (prefix needle (h # hs) \<or> contains needle hs)"

text \<open>Python's \<open>str(n)\<close> for a non-negative integer.\<close>

definition digit_char :: "nat \<Rightarrow> char" where
  "digit_char d = ''0123456789'' ! d"

fun show_nat :: "nat \<Rightarrow> string" where
  "show_nat n = (if n < 10 then [digit_char n] else show_nat (n div 10) @ [digit_char (n mod 10)])"

declare show_nat.simps [simp del]

text \<open>Python's \<open>xs[:n]\<close>: a negative \<open>n\<close> counts from the end, clamped at the start.\<close>

definition slice_to :: "'a list \<Rightarrow> int \<Rightarrow> 'a list" where
  "slice_to xs n = (if 0 \<le> n then take (nat n) xs else take (nat (int (length xs) + n)) xs)"

section \<open>UTF-8 (\<open>str.encode('utf-8')\<close> and \<open>bytes.decode('utf-8', errors='ignore')\<close>)\<close>

definition is_surrogate :: "nat \<Rightarrow> bool" where
  "is_surrogate c = (0xD800 \<le> c \<and> c \<le> 0xDFFF)"

definition scalar :: "nat \<Rightarrow> bool" where
  "scalar c = (c \<le> 0x10FFFF \<and> \<not> is_surrogate c)"

definition encode_cp :: "nat \<Rightarrow> bytes" where
  "encode_cp c =
     (if c < 0x80 then [c]
      else if c < 0x800 then [0xC0 + c div 64, 0x80 + c mod 64]
      else if c < 0x10000 then [0xE0 + c div 4096, 0x80 + c div 64 mod 64, 0x80 + c mod 64]
      else [0xF0 + c div 262144, 0x80 + c div 4096 mod 64, 0x80 + c div 64 mod 64,
            0x80 + c mod 64])"

text \<open>
  \<open>text.encode('utf-8')\<close>: a lone surrogate raises \<open>UnicodeEncodeError\<close>. A code point
  above \<open>0x10FFFF\<close> is in no Python string; the model refuses it in the same way.
\<close>

fun utf8_encode :: "pystr \<Rightarrow> error + bytes" where
  "utf8_encode [] = Inr []"
| "utf8_encode (c # cs) =
     (if \<not> scalar c then Inl (Err UnicodeEncodeError ''surrogates not allowed'')
      else case utf8_encode cs of
             Inl e \<Rightarrow> Inl e
           | Inr bs \<Rightarrow> Inr (encode_cp c @ bs))"

definition is_cont :: "nat \<Rightarrow> bool" where
  "is_cont b = (0x80 \<le> b \<and> b \<le> 0xBF)"

text \<open>The second octet of a three- and of a four-octet sequence has a range of its own
  after \<open>E0\<close>, \<open>ED\<close>, \<open>F0\<close> and \<open>F4\<close> (no overlong forms, no surrogates, nothing above
  \<open>0x10FFFF\<close>).\<close>

definition second3_ok :: "nat \<Rightarrow> nat \<Rightarrow> bool" where
  "second3_ok b0 b1 =
     (if b0 = 0xE0 then 0xA0 \<le> b1 \<and> b1 \<le> 0xBF
      else if b0 = 0xED then 0x80 \<le> b1 \<and> b1 \<le> 0x9F
      else is_cont b1)"

definition second4_ok :: "nat \<Rightarrow> nat \<Rightarrow> bool" where
  "second4_ok b0 b1 =
     (if b0 = 0xF0 then 0x90 \<le> b1 \<and> b1 \<le> 0xBF
      else if b0 = 0xF4 then 0x80 \<le> b1 \<and> b1 \<le> 0x8F
      else is_cont b1)"

text \<open>One well-formed sequence at the head of the input: its code point and its length.\<close>

fun decode_head :: "bytes \<Rightarrow> (nat \<times> nat) option" where
  "decode_head [] = None"
| "decode_head (b0 # bs) =
     (if b0 < 0x80 then Some (b0, 1)
      else if 0xC2 \<le> b0 \<and> b0 \<le> 0xDF then
        (case bs of
           b1 # _ \<Rightarrow>
             if is_cont b1 then Some ((b0 - 0xC0) * 64 + (b1 - 0x80), 2) else None
         | _ \<Rightarrow> None)
      else if 0xE0 \<le> b0 \<and> b0 \<le> 0xEF then
        (case bs of
           b1 # b2 # _ \<Rightarrow>
             if second3_ok b0 b1 \<and> is_cont b2
             then Some ((b0 - 0xE0) * 4096 + (b1 - 0x80) * 64 + (b2 - 0x80), 3) else None
         | _ \<Rightarrow> None)
      else if 0xF0 \<le> b0 \<and> b0 \<le> 0xF4 then
        (case bs of
           b1 # b2 # b3 # _ \<Rightarrow>
             if second4_ok b0 b1 \<and> is_cont b2 \<and> is_cont b3
             then Some ((b0 - 0xF0) * 262144 + (b1 - 0x80) * 4096 + (b2 - 0x80) * 64
                        + (b3 - 0x80), 4)
             else None
         | _ \<Rightarrow> None)
      else None)"

lemma decode_head_pos: "decode_head bs = Some (c, n) \<Longrightarrow> 0 < n"
  by (cases bs) (auto split: if_splits list.splits)

text \<open>
  \<open>decode('utf-8', errors='ignore')\<close>: a well-formed sequence gives its code point; an
  octet that starts none is dropped and decoding resumes at the next octet. (CPython
  drops the whole ill-formed prefix at once; the octets after its first are continuation
  octets, which start no sequence, so dropping them one by one gives the same text.)
\<close>

function utf8_decode_ignore :: "bytes \<Rightarrow> pystr" where
  "utf8_decode_ignore [] = []"
| "utf8_decode_ignore (b # bs) =
     (case decode_head (b # bs) of
        Some (c, n) \<Rightarrow> c # utf8_decode_ignore (drop n (b # bs))
      | None \<Rightarrow> utf8_decode_ignore bs)"
  by pat_completeness auto
termination
proof (relation "measure length")
  fix b :: nat and bs :: bytes and x :: "nat \<times> nat" and c n :: nat
  assume "decode_head (b # bs) = Some x" and "(c, n) = x"
  then have "0 < n" using decode_head_pos [of "b # bs" c n] by simp
  then show "(drop n (b # bs), b # bs) \<in> measure length" by simp
qed simp_all

declare utf8_decode_ignore.simps(2) [simp del]

text \<open>Strict validity of an octet sequence as UTF-8: it is a run of well-formed sequences.\<close>

function utf8_valid :: "bytes \<Rightarrow> bool" where
  "utf8_valid [] = True"
| "utf8_valid (b # bs) =
     (case decode_head (b # bs) of
        Some (c, n) \<Rightarrow> utf8_valid (drop n (b # bs))
      | None \<Rightarrow> False)"
  by pat_completeness auto
termination
proof (relation "measure length")
  fix b :: nat and bs :: bytes and x :: "nat \<times> nat" and c n :: nat
  assume "decode_head (b # bs) = Some x" and "(c, n) = x"
  then have "0 < n" using decode_head_pos [of "b # bs" c n] by simp
  then show "(drop n (b # bs), b # bs) \<in> measure length" by simp
qed simp_all

declare utf8_valid.simps(2) [simp del]

section \<open>lib/embedder.py\<close>

definition MAX_DOWNLOAD_SIZE_MB :: nat where
  "MAX_DOWNLOAD_SIZE_MB = 10"

definition MAX_TEXT_BYTES :: int where
  "MAX_TEXT_BYTES = 1024"

text \<open>
  \<open>truncate_to_bytes(text, max_bytes)\<close>. \<open>not text\<close> holds for \<open>None\<close> and for the empty
  string.
\<close>

definition truncate_to_bytes :: "pystr option \<Rightarrow> int \<Rightarrow> error + pystr" where
  "truncate_to_bytes text max_bytes =
     (case text of
        None \<Rightarrow> Inr []
      | Some t \<Rightarrow>
          (if t = [] then Inr []
           else (case utf8_encode t of
                   Inl e \<Rightarrow> Inl e
                 | Inr encoded \<Rightarrow>
                     (if int (length encoded) \<le> max_bytes then Inr t
                      else Inr (utf8_decode_ignore (slice_to encoded max_bytes))))))"


section \<open>UTF-8: encoding, then decoding a cut of the octets\<close>

lemma encode_cp_length: "length (encode_cp c) = (if c < 0x80 then 1 else if c < 0x800 then 2 else if c < 0x10000 then 3 else 4)"
  by (simp add: encode_cp_def)

lemma decode_head_encode1: "c < 0x80 \<Longrightarrow> decode_head (encode_cp c @ r) = Some (c, 1)"
  by (simp add: encode_cp_def)

lemma split64: "(c::nat) = 64 * (c div 64) + c mod 64"
  by simp

lemma split4096: "(c::nat) = 4096 * (c div 4096) + 64 * (c div 64 mod 64) + c mod 64"
proof -
  have "c div 4096 = c div 64 div 64" by (simp add: div_mult2_eq)
  then have "c div 64 = 64 * (c div 4096) + c div 64 mod 64" by simp
  then show ?thesis using split64 [of c] by linarith
qed

lemma split262144:
  "(c::nat) = 262144 * (c div 262144) + 4096 * (c div 4096 mod 64) + 64 * (c div 64 mod 64) + c mod 64"
proof -
  have "c div 262144 = c div 4096 div 64" by (simp add: div_mult2_eq)
  then have "c div 4096 = 64 * (c div 262144) + c div 4096 mod 64" by simp
  then show ?thesis using split4096 [of c] by linarith
qed

lemma decode_head_encode2:
  assumes "\<not> c < 0x80" "c < 0x800"
  shows "decode_head (encode_cp c @ r) = Some (c, 2)"
proof -
  define q where "q = c div 64"
  define m where "m = c mod 64"
  have c: "c = 64 * q + m" and m: "m < 64" unfolding q_def m_def by simp_all
  have q: "2 \<le> q" "q < 32" using assms c m by linarith+
  have "encode_cp c = [0xC0 + q, 0x80 + m]"
    using assms by (simp add: encode_cp_def q_def m_def)
  moreover have "decode_head ([0xC0 + q, 0x80 + m] @ r) = Some (64 * q + m, 2)"
    using q m by (simp add: is_cont_def)
  ultimately show ?thesis using c by simp
qed


lemma decode_head_encode3:
  assumes "\<not> c < 0x800" "c < 0x10000" "\<not> is_surrogate c"
  shows "decode_head (encode_cp c @ r) = Some (c, 3)"
proof -
  define a where "a = c div 4096"
  define b where "b = c div 64 mod 64"
  define m where "m = c mod 64"
  have c: "c = 4096 * a + 64 * b + m" and b: "b < 64" and m: "m < 64"
    unfolding a_def b_def m_def using split4096 [of c] by simp_all
  have a: "a < 16" using assms c by linarith
  have a0: "32 \<le> b" if "a = 0" using assms c m that by linarith
  have a13: "b < 32" if "a = 13" using assms(3) c b m that unfolding is_surrogate_def by auto
  have "encode_cp c = [0xE0 + a, 0x80 + b, 0x80 + m]"
    using assms by (simp add: encode_cp_def a_def b_def m_def)
  moreover have "decode_head ([0xE0 + a, 0x80 + b, 0x80 + m] @ r)
      = Some (4096 * a + 64 * b + m, 3)"
    using a b m a0 a13 by (auto simp: is_cont_def second3_ok_def)
  ultimately show ?thesis using c by simp
qed

lemma decode_head_encode4:
  assumes "\<not> c < 0x10000" "c \<le> 0x10FFFF"
  shows "decode_head (encode_cp c @ r) = Some (c, 4)"
proof -
  define a where "a = c div 262144"
  define b where "b = c div 4096 mod 64"
  define d where "d = c div 64 mod 64"
  define m where "m = c mod 64"
  have c: "c = 262144 * a + 4096 * b + 64 * d + m"
    and b: "b < 64" and d: "d < 64" and m: "m < 64"
    unfolding a_def b_def d_def m_def using split262144 [of c] by simp_all
  have a: "a \<le> 4" using assms c by linarith
  have a0: "16 \<le> b" if "a = 0" using assms c d m that by linarith
  have a4: "b < 16" if "a = 4" using assms c that by linarith
  have "encode_cp c = [0xF0 + a, 0x80 + b, 0x80 + d, 0x80 + m]"
    using assms by (simp add: encode_cp_def a_def b_def d_def m_def)
  moreover have "decode_head ([0xF0 + a, 0x80 + b, 0x80 + d, 0x80 + m] @ r)
      = Some (262144 * a + 4096 * b + 64 * d + m, 4)"
    using a b d m a0 a4 by (auto simp: is_cont_def second4_ok_def)
  ultimately show ?thesis using c by simp
qed

lemma decode_head_encode:
  assumes "scalar c"
  shows "decode_head (encode_cp c @ r) = Some (c, length (encode_cp c))"
proof -
  consider "c < 0x80" | "\<not> c < 0x80" "c < 0x800" | "\<not> c < 0x800" "c < 0x10000"
    | "\<not> c < 0x10000" by linarith
  then show ?thesis
  proof cases
    case 1 then show ?thesis by (simp add: decode_head_encode1 encode_cp_length)
  next
    case 2 then show ?thesis by (simp add: decode_head_encode2 encode_cp_length)
  next
    case 3 then show ?thesis using assms
      by (simp add: decode_head_encode3 encode_cp_length scalar_def)
  next
    case 4 then show ?thesis using assms
      by (simp add: decode_head_encode4 encode_cp_length scalar_def)
  qed
qed

lemma encode_cp_nonempty: "encode_cp c \<noteq> []"
  by (simp add: encode_cp_def)

lemma decode_ignore_encode_cp:
  assumes "scalar c"
  shows "utf8_decode_ignore (encode_cp c @ r) = c # utf8_decode_ignore r"
proof -
  obtain b bs where e: "encode_cp c = b # bs"
    using encode_cp_nonempty [of c] by (cases "encode_cp c") auto
  have "utf8_decode_ignore ((b # bs) @ r) = c # utf8_decode_ignore (drop (length (b # bs)) ((b # bs) @ r))"
    using decode_head_encode [OF assms, of r] e
    by (simp add: utf8_decode_ignore.simps(2) del: drop_Suc_Cons)
  then show ?thesis using e by simp
qed



lemma decode_head_cont: "is_cont b \<Longrightarrow> decode_head (b # bs) = None"
  by (simp add: is_cont_def)

lemma decode_head_short2: "0xC2 \<le> b0 \<Longrightarrow> decode_head [b0] = None"
  by simp

lemma decode_head_short3: "0xE0 \<le> b0 \<Longrightarrow> length bs < 2 \<Longrightarrow> decode_head (b0 # bs) = None"
  by (cases bs) (auto split: list.splits)

lemma decode_head_short4: "0xF0 \<le> b0 \<Longrightarrow> length bs < 3 \<Longrightarrow> decode_head (b0 # bs) = None"
  by (cases bs) (auto split: list.splits)

declare decode_head.simps [simp del]

lemma decode_ignore_conts:
  "list_all is_cont bs \<Longrightarrow> utf8_decode_ignore bs = []"
  by (induction bs) (simp_all add: utf8_decode_ignore.simps(2) decode_head_cont)

lemma encode_cp_tail_conts: "list_all is_cont (tl (encode_cp c))"
proof -
  have "x mod 64 \<le> 63" for x :: nat
    using mod_less_divisor [of 64 x] by linarith
  then show ?thesis by (simp add: encode_cp_def is_cont_def)
qed

lemma encode_cp_head:
  "\<not> c < 0x80 \<Longrightarrow> \<exists>b0 bs. encode_cp c = b0 # bs \<and> 0xC2 \<le> b0
     \<and> (length bs = 1 \<or> 0xE0 \<le> b0 \<and> length bs = 2 \<or> 0xF0 \<le> b0 \<and> length bs = 3)"
proof -
  assume c: "\<not> c < 0x80"
  have "2 \<le> c div 64" using c by simp
  then show ?thesis using c by (simp add: encode_cp_def)
qed

lemma take_proper_prefix_decode:
  assumes "n < length (encode_cp c)"
  shows "utf8_decode_ignore (take n (encode_cp c)) = []"
proof (cases "c < 0x80")
  case True
  then show ?thesis using assms by (simp add: encode_cp_def)
next
  case False
  from encode_cp_head [OF False] obtain b0 bs where
    e: "encode_cp c = b0 # bs" and b0: "0xC2 \<le> b0"
    and len: "length bs = 1 \<or> 0xE0 \<le> b0 \<and> length bs = 2 \<or> 0xF0 \<le> b0 \<and> length bs = 3"
    by blast
  have conts: "list_all is_cont bs" using encode_cp_tail_conts [of c] e by simp
  show ?thesis
  proof (cases n)
    case 0
    then show ?thesis by simp
  next
    case (Suc k)
    have k: "k < length bs" using assms e Suc by simp
    have tk: "list_all is_cont (take k bs)"
      using conts by (simp add: list_all_iff) (meson in_set_takeD)
    have "decode_head (b0 # take k bs) = None"
    proof -
      consider "length bs = 1" | "0xE0 \<le> b0" "length bs = 2" | "0xF0 \<le> b0" "length bs = 3"
        using len by blast
      then show ?thesis
      proof cases
        case 1 then show ?thesis using k b0 by (simp add: decode_head_short2)
      next
        case 2 then show ?thesis using k by (simp add: decode_head_short3)
      next
        case 3 then show ?thesis using k by (simp add: decode_head_short4)
      qed
    qed
    then show ?thesis
      using e Suc decode_ignore_conts [OF tk] by (simp add: utf8_decode_ignore.simps(2))
  qed
qed

fun fitting_prefix :: "nat \<Rightarrow> pystr \<Rightarrow> pystr" where
  "fitting_prefix B [] = []"
| "fitting_prefix B (c # cs) =
     (if length (encode_cp c) \<le> B then c # fitting_prefix (B - length (encode_cp c)) cs
      else [])"

lemma decode_take_encode:
  "utf8_encode t = Inr enc \<Longrightarrow> utf8_decode_ignore (take B enc) = fitting_prefix B t"
proof (induction t arbitrary: B enc)
  case Nil
  then show ?case by simp
next
  case (Cons c cs)
  from Cons.prems obtain r where sc: "scalar c" and r: "utf8_encode cs = Inr r"
    and enc: "enc = encode_cp c @ r"
    by (auto split: if_splits sum.splits)
  show ?case
  proof (cases "length (encode_cp c) \<le> B")
    case True
    then have "take B enc = encode_cp c @ take (B - length (encode_cp c)) r"
      using enc by simp
    then show ?thesis
      using True sc Cons.IH [OF r] by (simp add: decode_ignore_encode_cp)
  next
    case False
    then have "take B enc = take B (encode_cp c)" using enc by simp
    then show ?thesis using False by (simp add: take_proper_prefix_decode)
  qed
qed

lemma utf8_valid_append:
  assumes "scalar c"
  shows "utf8_valid (encode_cp c @ r) = utf8_valid r"
proof -
  obtain b bs where e: "encode_cp c = b # bs"
    using encode_cp_nonempty [of c] by (cases "encode_cp c") auto
  have "utf8_valid ((b # bs) @ r) = utf8_valid (drop (length (b # bs)) ((b # bs) @ r))"
    using decode_head_encode [OF assms, of r] e
    by (simp add: utf8_valid.simps(2) del: drop_Suc_Cons)
  then show ?thesis using e by simp
qed

lemma utf8_valid_encode: "utf8_encode t = Inr enc \<Longrightarrow> utf8_valid enc"
proof (induction t arbitrary: enc)
  case Nil
  then show ?case by simp
next
  case (Cons c cs)
  then show ?case by (auto split: if_splits sum.splits simp: utf8_valid_append)
qed

lemma fitting_prefix_props:
  "utf8_encode t = Inr enc \<Longrightarrow>
   \<exists>e. utf8_encode (fitting_prefix B t) = Inr e \<and> length e \<le> B \<and> prefix e enc
     \<and> prefix (fitting_prefix B t) t"
proof (induction t arbitrary: B enc)
  case Nil
  then show ?case by simp
next
  case (Cons c cs)
  from Cons.prems obtain r where sc: "scalar c" and r: "utf8_encode cs = Inr r"
    and enc: "enc = encode_cp c @ r"
    by (auto split: if_splits sum.splits)
  show ?case
  proof (cases "length (encode_cp c) \<le> B")
    case True
    from Cons.IH [OF r, of "B - length (encode_cp c)"] obtain e where
      "utf8_encode (fitting_prefix (B - length (encode_cp c)) cs) = Inr e"
      "length e \<le> B - length (encode_cp c)" "prefix e r"
      "prefix (fitting_prefix (B - length (encode_cp c)) cs) cs" by blast
    then show ?thesis using True sc enc by simp
  next
    case False
    then show ?thesis by simp
  qed
qed

lemma fitting_prefix_all:
  "utf8_encode t = Inr enc \<Longrightarrow> length enc \<le> B \<Longrightarrow> fitting_prefix B t = t"
proof (induction t arbitrary: B enc)
  case Nil
  then show ?case by simp
next
  case (Cons c cs)
  then show ?case by (auto split: if_splits sum.splits)
qed


section \<open>Claims about \<open>truncate_to_bytes\<close>\<close>

lemmas utf8_eval = truncate_to_bytes_def scalar_def is_surrogate_def encode_cp_def slice_to_def
  utf8_decode_ignore.simps(2) decode_head.simps is_cont_def second3_ok_def second4_ok_def

text \<open>
  C2, as the specification states it, quantifies over every string and every budget. It
  fails at a negative budget, where the slice \<open>encoded[:max_bytes]\<close> counts from the
  end: \<open>truncate_to_bytes('abc', -1)\<close> is \<open>'ab'\<close>, two octets, more than the budget.
  It also fails at a string with a lone surrogate, where \<open>encode\<close> raises and nothing
  is returned.
\<close>

theorem truncate_to_bytes_counterexample:
  "truncate_to_bytes (Some [0x61, 0x62, 0x63]) (- 1) = Inr [0x61, 0x62]
   \<and> utf8_encode [0x61, 0x62] = Inr [0x61, 0x62]
   \<and> \<not> int (length [0x61, 0x62 :: nat]) \<le> - 1
   \<and> truncate_to_bytes (Some [0xD800]) 1024
       = Inl (Err UnicodeEncodeError ''surrogates not allowed'')"
  by (simp add: utf8_eval)

text \<open>
  C2 (amended): for every text that UTF-8 can encode (no lone surrogate) and every budget
  \<open>B \<ge> 0\<close>, \<open>truncate_to_bytes\<close> returns a string \<open>r\<close> whose encoding \<open>e\<close> has at
  most \<open>B\<close> octets and is valid UTF-8; \<open>r\<close> is a prefix of the text and \<open>e\<close> a prefix
  of the text's encoding, so the cut character is dropped whole; and a text that already
  fits is returned unchanged.
\<close>

theorem truncate_to_bytes_budget:
  assumes enc: "utf8_encode t = Inr encoded" and B: "0 \<le> B"
  shows "\<exists>r e. truncate_to_bytes (Some t) B = Inr r \<and> utf8_encode r = Inr e
           \<and> int (length e) \<le> B \<and> utf8_valid e \<and> prefix e encoded \<and> prefix r t
           \<and> (int (length encoded) \<le> B \<longrightarrow> r = t)"
proof (cases "int (length encoded) \<le> B")
  case True
  have "truncate_to_bytes (Some t) B = Inr t"
    using enc True by (cases t) (simp_all add: truncate_to_bytes_def)
  then show ?thesis using enc True utf8_valid_encode [OF enc] by simp
next
  case False
  then have ne: "t \<noteq> []" using enc B by auto
  have r: "truncate_to_bytes (Some t) B = Inr (fitting_prefix (nat B) t)"
    using enc False ne B decode_take_encode [OF enc, of "nat B"]
    by (simp add: truncate_to_bytes_def slice_to_def)
  from fitting_prefix_props [OF enc, of "nat B"] obtain e where
    e: "utf8_encode (fitting_prefix (nat B) t) = Inr e" "length e \<le> nat B"
       "prefix e encoded" "prefix (fitting_prefix (nat B) t) t"
    by blast
  show ?thesis using r e False B utf8_valid_encode [OF e(1)] by auto
qed

theorem truncate_to_bytes_budget_witness:
  "utf8_encode [0x61, 0x20AC, 0x1F600] = Inr [0x61, 0xE2, 0x82, 0xAC, 0xF0, 0x9F, 0x98, 0x80]
   \<and> truncate_to_bytes (Some [0x61, 0x20AC, 0x1F600]) 3 = Inr [0x61]
   \<and> (\<exists>r e. truncate_to_bytes (Some [0x61, 0x20AC, 0x1F600]) 3 = Inr r
          \<and> utf8_encode r = Inr e \<and> int (length e) \<le> 3 \<and> utf8_valid e
          \<and> prefix e [0x61, 0xE2, 0x82, 0xAC, 0xF0, 0x9F, 0x98, 0x80]
          \<and> prefix r [0x61, 0x20AC, 0x1F600]
          \<and> (int (length [0x61, 0xE2, 0x82, 0xAC, 0xF0, 0x9F, 0x98, 0x80 :: nat]) \<le> 3
               \<longrightarrow> r = [0x61, 0x20AC, 0x1F600]))"
proof -
  have h: "utf8_encode [0x61, 0x20AC, 0x1F600]
      = Inr [0x61, 0xE2, 0x82, 0xAC, 0xF0, 0x9F, 0x98, 0x80]"
    by (simp add: utf8_eval)
  have t3: "truncate_to_bytes (Some [0x61, 0x20AC, 0x1F600]) 3 = Inr [0x61]"
    by (simp add: utf8_eval)
  have b: "(0::int) \<le> 3" by simp
  note inst = truncate_to_bytes_budget [OF h b]
  show ?thesis
    by (rule conjI [OF h conjI [OF t3 inst]])
qed


section \<open>lib/embedder.py: download and embedding\<close>

text \<open>
  The collaborators of the embedder are parameters: \<open>requests.get\<close>, the MIME detection
  of \<open>magic\<close> and the embedding model. A response of \<open>requests\<close> is what the code reads
  of it: what \<open>raise_for_status\<close> raises, the \<open>content-length\<close> header and the chunks
  of \<open>iter_content\<close>. \<open>get_embeddings\<close> answers with an exception or with the
  \<open>image_embedding\<close> of its response, which may be absent.
\<close>

record http_response =
  status_error :: "string option"
  content_length_header :: "nat option"
  body_chunks :: "bytes list"

record 'v embed_env =
  requests_get :: "pystr option \<Rightarrow> error + http_response"
  mime_from_buffer :: "bytes \<Rightarrow> string"
  get_embeddings :: "bytes \<Rightarrow> pystr option \<Rightarrow> nat \<Rightarrow> error + 'v list option"

text \<open>Python's truth value of an optional string: \<open>None\<close> and \<open>''\<close> are false.\<close>

fun truthy :: "'a list option \<Rightarrow> bool" where
  "truthy None = False"
| "truthy (Some s) = (s \<noteq> [])"

text \<open>The loop over \<open>response.iter_content\<close>, with the size ceiling checked after each
  chunk.\<close>

fun read_chunks :: "bytes \<Rightarrow> bytes list \<Rightarrow> error + bytes" where
  "read_chunks buffer [] = Inr buffer"
| "read_chunks buffer (chunk # rest) =
     (if length (buffer @ chunk) > MAX_DOWNLOAD_SIZE_MB * 1024 * 1024
      then Inl (Err Exception ''Downloaded media exceeded 10 MB'')
      else read_chunks (buffer @ chunk) rest)"

text \<open>The body of the \<open>try\<close> of \<open>download_media\<close> (the figure in the message of the
  first size check is left out).\<close>

definition download_media_try :: "'v embed_env \<Rightarrow> pystr option \<Rightarrow> error + bytes \<times> string" where
  "download_media_try env url =
     (case requests_get env url of
        Inl e \<Rightarrow> Inl e
      | Inr response \<Rightarrow>
          (case status_error response of
             Some m \<Rightarrow> Inl (Err HTTPError m)
           | None \<Rightarrow>
               (if (case content_length_header response of None \<Rightarrow> 0 | Some n \<Rightarrow> n)
                     > MAX_DOWNLOAD_SIZE_MB * 1024 * 1024
                then Inl (Err Exception ''Media file too large'')
                else (case read_chunks [] (body_chunks response) of
                        Inl e \<Rightarrow> Inl e
                      | Inr buffer \<Rightarrow>
                          (if \<not> (prefix ''image/'' (mime_from_buffer env buffer)
                                  \<or> prefix ''video/'' (mime_from_buffer env buffer))
                           then Inl (Err Exception (''Unsupported MIME type: ''
                                       @ mime_from_buffer env buffer))
                           else Inr (buffer, mime_from_buffer env buffer))))))"

definition download_media :: "'v embed_env \<Rightarrow> pystr option \<Rightarrow> error + bytes \<times> string" where
  "download_media env url =
     (case download_media_try env url of
        Inl e \<Rightarrow> Inl (Err Exception (''Failed to download or validate media: '' @ str_of e))
      | Inr media_data \<Rightarrow> Inr media_data)"

text \<open>
  The dimension check of \<open>generate_multimodal_embedding\<close>. On a missing vector
  \<open>not embedding_vector\<close> holds and the message's \<open>len(embedding_vector)\<close> raises
  \<open>TypeError\<close> in place of the intended exception.
\<close>

definition check_dimension :: "'v list option \<Rightarrow> error + 'v list" where
  "check_dimension embedding_vector =
     (case embedding_vector of
        None \<Rightarrow>
          Inl (Err TypeError (''object of type '' @ [CHR 0x27] @ ''NoneType'' @ [CHR 0x27]
                 @ '' has no len()''))
      | Some v \<Rightarrow>
          (if v = [] \<or> length v \<noteq> 1408
           then Inl (Err Exception
                  (''Invalid embedding received: expected 1408 dimensions, got ''
                    @ show_nat (length v)))
           else Inr v))"

text \<open>The calls that leave the process, in the order they are made.\<close>

datatype call =
  Call_download_media "pystr option"
  | Call_get_embeddings bytes "pystr option" nat

text \<open>
  \<open>generate_multimodal_embedding(text, media_url)\<close>: its result and the outside calls it
  made. The \<open>except\<close> of step 3 rewrites every exception of the model call and of the
  dimension check.
\<close>

definition generate_multimodal_embedding ::
  "'v embed_env \<Rightarrow> pystr option \<Rightarrow> pystr option \<Rightarrow> (error + 'v list) \<times> call list" where
  "generate_multimodal_embedding env text media_url =
     (if \<not> truthy text \<and> \<not> truthy media_url
      then (Inl (Err Exception
              ''Either text or a media URL must be provided to generate an embedding.''), [])
      else (case download_media env media_url of
              Inl e \<Rightarrow> (Inl e, [Call_download_media media_url])
            | Inr media_data \<Rightarrow>
                (case truncate_to_bytes text MAX_TEXT_BYTES of
                   Inl e \<Rightarrow> (Inl e, [Call_download_media media_url])
                 | Inr truncated_text \<Rightarrow>
                     ((case (case get_embeddings env (fst media_data)
                                   (if truncated_text \<noteq> [] then Some truncated_text else None)
                                   1408 of
                               Inl e \<Rightarrow> Inl e
                             | Inr embedding_vector \<Rightarrow> check_dimension embedding_vector) of
                         Inl e \<Rightarrow>
                           (if contains ''400'' (str_of e)
                            then Inl (Err Exception
                              ''The media format may be unsupported by the embedding model.'')
                            else Inl (Err Exception
                              (''Failed to generate multimodal embedding: '' @ str_of e)))
                       | Inr v \<Rightarrow> Inr v),
                      [Call_download_media media_url,
                       Call_get_embeddings (fst media_data)
                         (if truncated_text \<noteq> [] then Some truncated_text else None) 1408]))))"

lemma check_dimension_Inr: "check_dimension ev = Inr v \<Longrightarrow> ev = Some v \<and> length v = 1408"
  by (auto simp: check_dimension_def split: option.splits if_splits)


lemma generate_Inr:
  assumes "fst (generate_multimodal_embedding env t media_url) = Inr v"
  shows "\<exists>buffer ctx.
           snd (generate_multimodal_embedding env t media_url)
             = [Call_download_media media_url, Call_get_embeddings buffer ctx 1408]
           \<and> get_embeddings env buffer ctx 1408 = Inr (Some v) \<and> length v = 1408"
  using assms
  by (auto simp: generate_multimodal_embedding_def
        split: if_splits sum.splits dest!: check_dimension_Inr)

lemma generate_calls:
  "snd (generate_multimodal_embedding env t media_url) = []
   \<or> snd (generate_multimodal_embedding env t media_url) = [Call_download_media media_url]
   \<or> (\<exists>buffer ctx. snd (generate_multimodal_embedding env t media_url)
         = [Call_download_media media_url, Call_get_embeddings buffer ctx 1408])"
  by (auto simp: generate_multimodal_embedding_def split: if_splits sum.splits)

lemma generate_bad_response:
  assumes "Call_get_embeddings buffer ctx n \<in> set (snd (generate_multimodal_embedding env t media_url))"
    and "get_embeddings env buffer ctx n = Inr w"
    and "w = None \<or> length (the w) \<noteq> 1408"
  shows "\<exists>m. fst (generate_multimodal_embedding env t media_url) = Inl (Err Exception m)"
  using assms
  by (auto simp: generate_multimodal_embedding_def check_dimension_def
        split: if_splits sum.splits option.splits)

text \<open>A run of the embedder: a small PNG behind the URL, and a model that answers with a
  vector of the given length.\<close>

definition example_embed_env :: "nat \<Rightarrow> int embed_env" where
  "example_embed_env n =
     \<lparr>requests_get = (\<lambda>url. Inr \<lparr>status_error = None, content_length_header = Some 3,
                                    body_chunks = [[137, 80, 78]]\<rparr>),
      mime_from_buffer = (\<lambda>buffer. ''image/png''),
      get_embeddings = (\<lambda>buffer ctx d. Inr (Some (replicate n 0)))\<rparr>"

lemmas embed_eval = generate_multimodal_embedding_def download_media_def download_media_try_def
  example_embed_env_def check_dimension_def MAX_DOWNLOAD_SIZE_MB_def MAX_TEXT_BYTES_def
  truncate_to_bytes_def scalar_def is_surrogate_def encode_cp_def

lemma example_run_1408:
  "generate_multimodal_embedding (example_embed_env 1408) (Some [104, 105]) (Some [117])
     = (Inr (replicate 1408 0),
        [Call_download_media (Some [117]),
         Call_get_embeddings [137, 80, 78] (Some [104, 105]) 1408])"
  by (simp add: embed_eval)

lemma example_run_512:
  "generate_multimodal_embedding (example_embed_env 512) (Some [104, 105]) (Some [117])
     = (Inl (Err Exception (''Failed to generate multimodal embedding: ''
              @ ''Invalid embedding received: expected 1408 dimensions, got 512'')),
        [Call_download_media (Some [117]),
         Call_get_embeddings [137, 80, 78] (Some [104, 105]) 1408])"
  by (simp add: embed_eval show_nat.simps digit_char_def)

lemma example_run_400:
  "generate_multimodal_embedding (example_embed_env 400) (Some [104, 105]) (Some [117])
     = (Inl (Err Exception ''The media format may be unsupported by the embedding model.''),
        [Call_download_media (Some [117]),
         Call_get_embeddings [137, 80, 78] (Some [104, 105]) 1408])"
  by (simp add: embed_eval show_nat.simps digit_char_def)

section \<open>Claim about the guard of \<open>generate_multimodal_embedding\<close>\<close>

text \<open>
  C10: when both the text and the media URL are empty or absent, the function raises at
  once and has made no outside call (no download, no call of the embedding service).
  When at least one of them is non-empty, the first thing it does is the download of the
  media URL.
\<close>

theorem generate_requires_input:
  "(\<not> truthy t \<and> \<not> truthy media_url \<longrightarrow>
      generate_multimodal_embedding env t media_url
        = (Inl (Err Exception
             ''Either text or a media URL must be provided to generate an embedding.''), []))
   \<and> (truthy t \<or> truthy media_url \<longrightarrow>
      (\<exists>rest. snd (generate_multimodal_embedding env t media_url)
         = Call_download_media media_url # rest))"
  by (auto simp: generate_multimodal_embedding_def split: sum.splits)

theorem generate_requires_input_witness:
  "\<not> truthy (Some ([]::pystr)) \<and> \<not> truthy (None::pystr option)
   \<and> generate_multimodal_embedding (example_embed_env 1408) (Some []) None
       = (Inl (Err Exception
            ''Either text or a media URL must be provided to generate an embedding.''), [])
   \<and> truthy (Some [117::nat])
   \<and> (\<exists>rest. snd (generate_multimodal_embedding (example_embed_env 1408) None (Some [117]))
         = Call_download_media (Some [117]) # rest)"
proof -
  note none = generate_requires_input [of "Some []" None "example_embed_env 1408"]
  note some = generate_requires_input [of None "Some [117]" "example_embed_env 1408"]
  have a: "\<not> truthy (Some ([]::pystr)) \<and> \<not> truthy (None::pystr option)" by simp
  have b: "truthy (Some [117::nat])" by simp
  show ?thesis using none some a b by blast
qed


section \<open>lib/transcriber.py\<close>

text \<open>Local files are named by numbers; \<open>tempfile.mkstemp\<close> hands out the next one.\<close>

type_synonym path = nat

text \<open>Python's \<open>' '.join(parts)\<close> and \<open>s.strip()\<close>; the white space of \<open>str.strip\<close> is
  the set of code points for which \<open>str.isspace\<close> holds.\<close>

fun join_space :: "pystr list \<Rightarrow> pystr" where
  "join_space [] = []"
| "join_space [s] = s"
| "join_space (s # s' # rest) = s @ [0x20] @ join_space (s' # rest)"

definition py_isspace :: "nat \<Rightarrow> bool" where
  "py_isspace c =
     ((0x09 \<le> c \<and> c \<le> 0x0D) \<or> (0x1C \<le> c \<and> c \<le> 0x20) \<or> c = 0x85 \<or> c = 0xA0
      \<or> c = 0x1680 \<or> (0x2000 \<le> c \<and> c \<le> 0x200A) \<or> c = 0x2028 \<or> c = 0x2029
      \<or> c = 0x202F \<or> c = 0x205F \<or> c = 0x3000)"

definition strip :: "pystr \<Rightarrow> pystr" where
  "strip s = rev (dropWhile py_isspace (rev (dropWhile py_isspace s)))"

text \<open>
  The speech service and the file system are parameters: creating the client, opening
  and reading the audio file, and \<open>client.recognize\<close>, whose response is a list of
  results, each with its list of alternative transcripts.
\<close>

record speech_env =
  speech_client :: "error option"
  open_audio :: "path \<Rightarrow> error + bytes"
  recognize :: "bytes \<Rightarrow> string \<Rightarrow> error + pystr list list"

text \<open>The loop over \<open>response.results\<close>: the first alternative of every result that has
  one.\<close>

fun transcript_parts :: "pystr list list \<Rightarrow> pystr list" where
  "transcript_parts [] = []"
| "transcript_parts (alternatives # results) =
     (if alternatives \<noteq> [] then hd alternatives # transcript_parts results
      else transcript_parts results)"

definition transcribe_audio :: "speech_env \<Rightarrow> path \<Rightarrow> string \<Rightarrow> error + pystr" where
  "transcribe_audio env audio_path language =
     (case speech_client env of
        Some e \<Rightarrow> Inl e
      | None \<Rightarrow>
          (case open_audio env audio_path of
             Inl e \<Rightarrow> Inl e
           | Inr audio_content \<Rightarrow>
               (case recognize env audio_content language of
                  Inl e \<Rightarrow> Inl (Err Exception (''Speech-to-Text error: '' @ str_of e))
                | Inr results \<Rightarrow> Inr (strip (join_space (transcript_parts results))))))"

text \<open>The loop of \<open>transcribe_long_audio\<close> over the chunks, with \<open>all_transcripts\<close> as
  its accumulator; \<open>except Exception\<close> catches whatever the chunk's transcription
  raises.\<close>

fun transcribe_chunks_loop ::
  "speech_env \<Rightarrow> string \<Rightarrow> pystr list \<Rightarrow> path list \<Rightarrow> pystr list" where
  "transcribe_chunks_loop env language all_transcripts [] = all_transcripts"
| "transcribe_chunks_loop env language all_transcripts (chunk_path # rest) =
     (case transcribe_audio env chunk_path language of
        Inl e \<Rightarrow> transcribe_chunks_loop env language all_transcripts rest
      | Inr chunk_transcript \<Rightarrow>
          transcribe_chunks_loop env language (all_transcripts @ [chunk_transcript]) rest)"

definition transcribe_long_audio :: "speech_env \<Rightarrow> path list \<Rightarrow> string \<Rightarrow> error + pystr" where
  "transcribe_long_audio env chunk_paths language =
     Inr (strip (join_space (transcribe_chunks_loop env language [] chunk_paths)))"

text \<open>The transcripts of the chunks that succeeded, in chunk order (the statement's side
  of C4).\<close>

definition succeeded_transcripts :: "speech_env \<Rightarrow> string \<Rightarrow> path list \<Rightarrow> pystr list" where
  "succeeded_transcripts env language chunk_paths =
     concat (map (\<lambda>p. case transcribe_audio env p language of Inl e \<Rightarrow> [] | Inr t \<Rightarrow> [t])
               chunk_paths)"

definition stripped :: "pystr \<Rightarrow> bool" where
  "stripped s = (s = [] \<or> (\<not> py_isspace (hd s) \<and> \<not> py_isspace (last s)))"

lemma loop_succeeded:
  "transcribe_chunks_loop env language acc ps = acc @ succeeded_transcripts env language ps"
  by (induction ps arbitrary: acc) (auto simp: succeeded_transcripts_def split: sum.splits)

lemma dropWhile_hd_id: "xs \<noteq> [] \<Longrightarrow> \<not> P (hd xs) \<Longrightarrow> dropWhile P xs = xs"
  by (cases xs) auto

lemma strip_stripped: "stripped (strip s)"
proof (cases "dropWhile py_isspace s = []")
  case True
  show ?thesis unfolding strip_def stripped_def True by simp
next
  case False
  define u where "u = dropWhile py_isspace s"
  have hu: "\<not> py_isspace (hd u)" using False unfolding u_def by (simp add: hd_dropWhile)
  define r where "r = dropWhile py_isspace (rev u)"
  have "rev u \<noteq> []" using False u_def by simp
  have "\<exists>x\<in>set (rev u). \<not> py_isspace x"
    using False hu unfolding u_def by (metis hd_in_set set_rev u_def)
  then have rne: "r \<noteq> []" unfolding r_def by (simp add: dropWhile_eq_Nil_conv)
  then have hr: "\<not> py_isspace (hd r)" unfolding r_def by (simp add: hd_dropWhile)
  obtain pre where pre: "rev u = pre @ r" unfolding r_def
    by (metis takeWhile_dropWhile_id)
  then have u: "u = rev r @ rev pre" by (metis rev_append rev_rev_ident)
  have "hd (rev r) = hd u" using u rne by simp
  moreover have "last (rev r) = hd r" using rne by (simp add: last_rev)
  ultimately show ?thesis
    using hu hr rne unfolding strip_def stripped_def u_def [symmetric] r_def [symmetric]
    by simp
qed

lemma strip_id: "stripped s \<Longrightarrow> strip s = s"
proof -
  assume s: "stripped s"
  show ?thesis
  proof (cases "s = []")
    case True then show ?thesis by (simp add: strip_def)
  next
    case False
    then have h: "\<not> py_isspace (hd s)" and l: "\<not> py_isspace (last s)"
      using s by (auto simp: stripped_def)
    have 1: "dropWhile py_isspace s = s" using False h by (rule dropWhile_hd_id)
    have "hd (rev s) = last s" using False by (simp add: hd_rev)
    then have 2: "dropWhile py_isspace (rev s) = rev s"
      using False l by (intro dropWhile_hd_id) simp_all
    show ?thesis by (simp add: strip_def 1 2)
  qed
qed

lemma transcribe_audio_stripped: "transcribe_audio env p language = Inr t \<Longrightarrow> stripped t"
  by (auto simp: transcribe_audio_def strip_stripped split: option.splits sum.splits)

lemma stripped_join2:
  "stripped a \<Longrightarrow> stripped b \<Longrightarrow> a \<noteq> [] \<Longrightarrow> b \<noteq> [] \<Longrightarrow> stripped (a @ [0x20] @ b)"
  by (auto simp: stripped_def)


text \<open>Three chunks; the file of chunk \<open>p\<close> holds the octet \<open>p\<close>. The service finds no
  speech in the first (when \<open>silent_first\<close>), fails on the second and hears the third.\<close>

definition example_speech_env :: "bool \<Rightarrow> speech_env" where
  "example_speech_env silent_first =
     \<lparr>speech_client = None,
      open_audio = (\<lambda>p. Inr [p]),
      recognize = (\<lambda>content language.
        if content = [1] then (if silent_first then Inr [] else Inr [[[104, 105]]])
        else if content = [2] then Inl (Err Exception ''503 unavailable'')
        else Inr [[[32, 111, 107, 32], [79, 75]], []])\<rparr>"

lemmas speech_eval = transcribe_long_audio_def transcribe_audio_def example_speech_env_def
  strip_def py_isspace_def

section \<open>Claims about \<open>transcribe_long_audio\<close>\<close>

text \<open>
  C4, as the specification states it, ends with: for three chunks of which the second
  raises, the result equals the first chunk's text, a space, and the third chunk's text.
  The result is trimmed after joining, so this fails when the first (or third) chunk's
  transcript is empty, which is what \<open>transcribe_audio\<close> returns for a chunk without
  speech: the result is then the other text alone, without the space.
\<close>

theorem transcribe_long_audio_counterexample:
  "transcribe_audio (example_speech_env True) 1 ''en'' = Inr []
   \<and> transcribe_audio (example_speech_env True) 2 ''en''
       = Inl (Err Exception ''Speech-to-Text error: 503 unavailable'')
   \<and> transcribe_audio (example_speech_env True) 3 ''en'' = Inr [111, 107]
   \<and> transcribe_long_audio (example_speech_env True) [1, 2, 3] ''en'' = Inr [111, 107]
   \<and> transcribe_long_audio (example_speech_env True) [1, 2, 3] ''en''
       \<noteq> Inr ([] @ [0x20] @ [111, 107])"
  by (simp add: speech_eval)

text \<open>
  C4 (amended): \<open>transcribe_long_audio\<close> always returns, and what it returns is the
  space-joined, trimmed concatenation of the transcripts of exactly the chunks whose
  transcription succeeded, in chunk order; a chunk whose transcription raises
  contributes nothing. For three chunks of which the second raises the result is the
  trimmed \<open>chunk1-text + ' ' + chunk3-text\<close>, which is \<open>chunk1-text + ' ' + chunk3-text\<close>
  itself when both texts are non-empty.
\<close>

theorem transcribe_long_audio_partial:
  "transcribe_long_audio env chunk_paths language
     = Inr (strip (join_space (succeeded_transcripts env language chunk_paths)))
   \<and> (transcribe_audio env p1 language = Inr t1 \<longrightarrow>
       (\<exists>e. transcribe_audio env p2 language = Inl e) \<longrightarrow>
       transcribe_audio env p3 language = Inr t3 \<longrightarrow>
         transcribe_long_audio env [p1, p2, p3] language = Inr (strip (t1 @ [0x20] @ t3))
         \<and> (t1 \<noteq> [] \<and> t3 \<noteq> [] \<longrightarrow>
              transcribe_long_audio env [p1, p2, p3] language = Inr (t1 @ [0x20] @ t3)))"
proof (intro conjI impI)
  show "transcribe_long_audio env chunk_paths language
     = Inr (strip (join_space (succeeded_transcripts env language chunk_paths)))"
    by (simp add: transcribe_long_audio_def loop_succeeded)
next
  assume 1: "transcribe_audio env p1 language = Inr t1"
    and 2: "\<exists>e. transcribe_audio env p2 language = Inl e"
    and 3: "transcribe_audio env p3 language = Inr t3"
  then show r: "transcribe_long_audio env [p1, p2, p3] language = Inr (strip (t1 @ [0x20] @ t3))"
    by (auto simp: transcribe_long_audio_def)
  assume "t1 \<noteq> [] \<and> t3 \<noteq> []"
  then have "stripped (t1 @ [0x20] @ t3)"
    using transcribe_audio_stripped [OF 1] transcribe_audio_stripped [OF 3]
    by (intro stripped_join2) simp_all
  then show "transcribe_long_audio env [p1, p2, p3] language = Inr (t1 @ [0x20] @ t3)"
    using r by (simp add: strip_id)
qed

theorem transcribe_long_audio_partial_witness:
  "transcribe_audio (example_speech_env False) 1 ''en'' = Inr [104, 105]
   \<and> (\<exists>e. transcribe_audio (example_speech_env False) 2 ''en'' = Inl e)
   \<and> transcribe_audio (example_speech_env False) 3 ''en'' = Inr [111, 107]
   \<and> [104, 105] \<noteq> ([]::pystr) \<and> [111, 107] \<noteq> ([]::pystr)
   \<and> transcribe_long_audio (example_speech_env False) [1, 2, 3] ''en''
       = Inr ([104, 105] @ [0x20] @ [111, 107])"
proof -
  have 1: "transcribe_audio (example_speech_env False) 1 ''en'' = Inr [104, 105]"
    by (simp add: speech_eval)
  have 2: "\<exists>e. transcribe_audio (example_speech_env False) 2 ''en'' = Inl e"
    by (simp add: speech_eval)
  have 3: "transcribe_audio (example_speech_env False) 3 ''en'' = Inr [111, 107]"
    by (simp add: speech_eval)
  have ne: "[104, 105] \<noteq> ([]::pystr) \<and> [111, 107] \<noteq> ([]::pystr)" by simp
  have "transcribe_long_audio (example_speech_env False) [1, 2, 3] ''en''
      = Inr ([104, 105] @ [0x20] @ [111, 107])"
    using transcribe_long_audio_partial
      [of "example_speech_env False" "[]" "''en''" 1 "[104, 105]" 2 3 "[111, 107]"] 1 2 3 ne
    by blast
  then show ?thesis using 1 2 3 ne by blast
qed


section \<open>main.py: the job queue\<close>

text \<open>
  The table \<open>enrichment_jobs\<close> is the list of its rows, in table order. Time stamps are
  seconds on the database's clock; \<open>NOW()\<close> is a parameter of every statement.
  \<open>attempts\<close> starts at 0 and is only ever incremented, so it is a natural number, and
  so is the configured maximum (a maximum below zero behaves as zero does in the two
  comparisons that read it). Statements are taken to succeed, with one exception: the
  \<open>UPDATE\<close> of \<open>mark_job_failed\<close> carries a text and a number of minutes from
  outside, and the database can refuse either (a NUL in the text, an interval out of
  range). What it raises on them, if anything, is a parameter of that function.
\<close>

datatype job_status = Pending | Processing | Completed | Failed

record job =
  job_id :: nat
  job_client_id :: string
  job_content_id :: nat
  job_content_type :: string
  status :: job_status
  attempts :: nat
  error_message :: "string option"
  created_at :: int
  started_at :: "int option"
  completed_at :: "int option"
  updated_at :: int

record config =
  MAX_RETRY_ATTEMPTS :: nat
  RETRY_BACKOFF_MINUTES :: "int list"

text \<open>The dictionary \<open>get_next_job\<close> returns, from the \<open>RETURNING\<close> clause.\<close>

record claimed_job =
  cj_id :: nat
  cj_client_id :: string
  cj_content_id :: nat
  cj_content_type :: string
  cj_attempts :: nat

definition eligible :: "config \<Rightarrow> job \<Rightarrow> bool" where
  "eligible cfg j = (status j = Pending \<and> attempts j < MAX_RETRY_ATTEMPTS cfg)"

text \<open>\<open>ORDER BY created_at ASC LIMIT 1\<close> over the rows left by the \<open>WHERE\<close> clause: the
  row created first (of several created at the same instant, the first in table order;
  SQL leaves that choice open).\<close>

fun oldest :: "job \<Rightarrow> job list \<Rightarrow> job" where
  "oldest j [] = j"
| "oldest j (k # ks) = (if created_at k < created_at j then oldest k ks else oldest j ks)"

definition select_next_id :: "config \<Rightarrow> job list \<Rightarrow> nat option" where
  "select_next_id cfg jobs =
     (case filter (eligible cfg) jobs of
        [] \<Rightarrow> None
      | j # js \<Rightarrow> Some (job_id (oldest j js)))"

definition to_claimed :: "job \<Rightarrow> claimed_job" where
  "to_claimed j =
     \<lparr>cj_id = job_id j, cj_client_id = job_client_id j, cj_content_id = job_content_id j,
      cj_content_type = job_content_type j, cj_attempts = attempts j\<rparr>"

text \<open>
  \<open>get_next_job\<close>: the \<open>UPDATE\<close> of every row whose id the subquery selected, and
  \<open>fetchone\<close> on the rows it returns. No other session holds a row lock here, so
  \<open>SKIP LOCKED\<close> skips nothing.
\<close>

definition get_next_job :: "config \<Rightarrow> int \<Rightarrow> job list \<Rightarrow> claimed_job option \<times> job list" where
  "get_next_job cfg now jobs =
     (case select_next_id cfg jobs of
        None \<Rightarrow> (None, jobs)
      | Some i \<Rightarrow>
          (case filter (\<lambda>j. job_id j = i) jobs of
             [] \<Rightarrow> (None, jobs)
           | j # _ \<Rightarrow>
               (Some (to_claimed j),
                map (\<lambda>k. if job_id k = i
                          then k\<lparr>status := Processing, started_at := Some now, updated_at := now\<rparr>
                          else k) jobs)))"

definition mark_job_completed :: "int \<Rightarrow> job list \<Rightarrow> nat \<Rightarrow> job list" where
  "mark_job_completed now jobs i =
     map (\<lambda>k. if job_id k = i
               then k\<lparr>status := Completed, completed_at := Some now, updated_at := now\<rparr>
               else k) jobs"

text \<open>The entry of the schedule for the attempt: \<open>RETRY_BACKOFF_MINUTES[-1]\<close> raises
  \<open>IndexError\<close> on an empty list.\<close>

definition backoff_minutes :: "config \<Rightarrow> nat \<Rightarrow> error + int" where
  "backoff_minutes cfg next_attempt =
     (if next_attempt - 1 < length (RETRY_BACKOFF_MINUTES cfg)
      then Inr (RETRY_BACKOFF_MINUTES cfg ! (next_attempt - 1))
      else if RETRY_BACKOFF_MINUTES cfg = [] then Inl (Err IndexError ''list index out of range'')
      else Inr (last (RETRY_BACKOFF_MINUTES cfg)))"

text \<open>What executing the \<open>UPDATE\<close> of \<open>mark_job_failed\<close> raises, if anything, for the
  error message and the backoff in minutes (\<open>None\<close> in the statement that sets
  \<open>failed\<close>, which has no interval).\<close>

type_synonym update_verdict = "string \<Rightarrow> int option \<Rightarrow> error option"

text \<open>\<open>mark_job_failed(job_id, error_message, current_attempts)\<close>; an exception rolls the
  transaction back and is raised again, so the table is then unchanged.\<close>

definition mark_job_failed ::
  "config \<Rightarrow> update_verdict \<Rightarrow> int \<Rightarrow> job list \<Rightarrow> nat \<Rightarrow> string \<Rightarrow> nat
     \<Rightarrow> error + job list" where
  "mark_job_failed cfg refused now jobs i message current_attempts =
     (if current_attempts + 1 \<ge> MAX_RETRY_ATTEMPTS cfg
      then (case refused message None of
              Some e \<Rightarrow> Inl e
            | None \<Rightarrow>
                Inr (map (\<lambda>k. if job_id k = i
                               then k\<lparr>status := Failed, error_message := Some message,
                                      attempts := current_attempts + 1, updated_at := now\<rparr>
                               else k) jobs))
      else (case backoff_minutes cfg (current_attempts + 1) of
              Inl e \<Rightarrow> Inl e
            | Inr minutes \<Rightarrow>
                (case refused message (Some minutes) of
                   Some e \<Rightarrow> Inl e
                 | None \<Rightarrow>
                     Inr (map (\<lambda>k. if job_id k = i
                                    then k\<lparr>status := Pending, error_message := Some message,
                                           attempts := current_attempts + 1,
                                           updated_at := now,
                                           created_at := now + 60 * minutes\<rparr>
                                    else k) jobs))))"

text \<open>The row of a job, by its primary key.\<close>

definition job_row :: "job list \<Rightarrow> nat \<Rightarrow> job option" where
  "job_row jobs i = find (\<lambda>j. job_id j = i) jobs"

lemma job_row_map:
  "job_row (map (\<lambda>k. if job_id k = i then f k else k) jobs) i'
     = (if i' = i then map_option f (job_row jobs i) else job_row jobs i')"
  if "\<And>k. job_id (f k) = job_id k"
  using that by (induction jobs) (auto simp: job_row_def)

lemma oldest_mem: "oldest j js \<in> set (j # js)"
  by (induction js arbitrary: j) auto

lemma oldest_le_head: "created_at (oldest j js) \<le> created_at j"
proof (induction js arbitrary: j)
  case Nil
  then show ?case by simp
next
  case (Cons a js)
  show ?case using Cons.IH [of a] Cons.IH [of j] by auto
qed

lemma oldest_le: "k \<in> set (j # js) \<Longrightarrow> created_at (oldest j js) \<le> created_at k"
proof (induction js arbitrary: j)
  case Nil
  then show ?case by simp
next
  case (Cons a js)
  show ?case
  proof (cases "created_at a < created_at j")
    case True
    then show ?thesis
      using Cons.prems Cons.IH [of a] oldest_le_head [of a js] by auto
  next
    case False
    then show ?thesis
      using Cons.prems Cons.IH [of j] oldest_le_head [of j js] by auto
  qed
qed

lemma select_next_id_None: "select_next_id cfg jobs = None \<longleftrightarrow> (\<forall>j\<in>set jobs. \<not> eligible cfg j)"
proof (cases "filter (eligible cfg) jobs")
  case Nil
  then show ?thesis by (simp add: select_next_id_def filter_empty_conv)
next
  case (Cons j js)
  then have "j \<in> set (filter (eligible cfg) jobs)" by simp
  then have "\<exists>j\<in>set jobs. eligible cfg j" by auto
  then show ?thesis using Cons by (simp add: select_next_id_def)
qed

lemma select_next_id_Some:
  assumes "select_next_id cfg jobs = Some i"
  shows "\<exists>j\<in>set jobs. job_id j = i \<and> eligible cfg j
           \<and> (\<forall>k\<in>set jobs. eligible cfg k \<longrightarrow> created_at j \<le> created_at k)"
proof -
  from assms obtain j js where f: "filter (eligible cfg) jobs = j # js"
    and i: "i = job_id (oldest j js)"
    by (auto simp: select_next_id_def split: list.splits)
  let ?o = "oldest j js"
  have mem: "?o \<in> set (filter (eligible cfg) jobs)" using oldest_mem [of j js] f by simp
  have "\<forall>k\<in>set jobs. eligible cfg k \<longrightarrow> created_at ?o \<le> created_at k"
  proof (intro ballI impI)
    fix k assume "k \<in> set jobs" "eligible cfg k"
    then have "k \<in> set (filter (eligible cfg) jobs)" by simp
    then have "k \<in> set (j # js)" using f by simp
    then show "created_at ?o \<le> created_at k" by (rule oldest_le)
  qed
  then show ?thesis using mem i by auto
qed

lemma find_distinct:
  "distinct (map job_id jobs) \<Longrightarrow> j \<in> set jobs \<Longrightarrow> job_row jobs (job_id j) = Some j"
  by (induction jobs) (auto simp: job_row_def rev_image_eqI)

lemma filter_distinct:
  "distinct (map job_id jobs) \<Longrightarrow> j \<in> set jobs \<Longrightarrow> filter (\<lambda>k. job_id k = job_id j) jobs = [j]"
  by (induction jobs) (auto simp: rev_image_eqI filter_empty_conv)


lemma map_only_row:
  assumes "distinct (map job_id jobs)" "j \<in> set jobs"
  shows "map (\<lambda>k. if job_id k = job_id j then f k else k) jobs
           = map (\<lambda>k. if k = j then f j else k) jobs"
proof (rule map_cong [OF refl])
  fix k assume k: "k \<in> set jobs"
  have "job_id k = job_id j \<longleftrightarrow> k = j"
    using assms k by (meson distinct_map inj_onD)
  then show "(if job_id k = job_id j then f k else k) = (if k = j then f j else k)" by auto
qed

text \<open>A table of four jobs and the default configuration.\<close>

definition example_cfg :: config where
  "example_cfg = \<lparr>MAX_RETRY_ATTEMPTS = 3, RETRY_BACKOFF_MINUTES = [5, 10, 20]\<rparr>"

definition example_job :: "nat \<Rightarrow> job_status \<Rightarrow> nat \<Rightarrow> int \<Rightarrow> job" where
  "example_job i st n created =
     \<lparr>job_id = i, job_client_id = ''client'', job_content_id = 100 + i,
      job_content_type = ''instagram_posts'', status = st, attempts = n,
      error_message = None, created_at = created, started_at = None, completed_at = None,
      updated_at = created\<rparr>"

definition accepts :: update_verdict where
  "accepts message minutes = None"

definition example_jobs :: "job list" where
  "example_jobs =
     [example_job 1 Pending 0 30, example_job 2 Pending 1 10, example_job 3 Completed 0 5,
      example_job 4 Pending 3 7]"

lemmas queue_eval = get_next_job_def select_next_id_def eligible_def to_claimed_def
  mark_job_failed_def backoff_minutes_def example_cfg_def example_job_def example_jobs_def
  accepts_def

section \<open>Claims about the job queue\<close>

text \<open>
  C6: with the primary key \<open>id\<close> unique, \<open>get_next_job\<close> picks, among the jobs that are
  pending with \<open>attempts < MAX_RETRY_ATTEMPTS\<close>, one whose creation time is the earliest;
  it sets exactly that row to \<open>processing\<close> with its started time stamp and leaves
  every other row as it was, and it returns that job. When no job is eligible it returns
  \<open>None\<close> and the table is unchanged.
\<close>

theorem get_next_job_fifo:
  assumes "distinct (map job_id jobs)"
  shows "if \<exists>j\<in>set jobs. eligible cfg j
         then \<exists>j\<in>set jobs. eligible cfg j
                \<and> (\<forall>k\<in>set jobs. eligible cfg k \<longrightarrow> created_at j \<le> created_at k)
                \<and> get_next_job cfg now jobs
                    = (Some (to_claimed j),
                       map (\<lambda>k. if k = j
                                 then j\<lparr>status := Processing, started_at := Some now,
                                        updated_at := now\<rparr>
                                 else k) jobs)
         else get_next_job cfg now jobs = (None, jobs)"
proof (cases "\<exists>j\<in>set jobs. eligible cfg j")
  case False
  then have "select_next_id cfg jobs = None" by (simp add: select_next_id_None)
  then show ?thesis using False by (simp add: get_next_job_def)
next
  case True
  then obtain i where i: "select_next_id cfg jobs = Some i"
    using select_next_id_None [of cfg jobs] by (cases "select_next_id cfg jobs") auto
  from select_next_id_Some [OF i] obtain j where j: "j \<in> set jobs" "job_id j = i"
    "eligible cfg j" "\<forall>k\<in>set jobs. eligible cfg k \<longrightarrow> created_at j \<le> created_at k"
    by blast
  have f: "filter (\<lambda>k. job_id k = i) jobs = [j]"
    using filter_distinct [OF assms j(1)] j(2) by simp
  have "get_next_job cfg now jobs
      = (Some (to_claimed j),
         map (\<lambda>k. if k = j
                   then j\<lparr>status := Processing, started_at := Some now, updated_at := now\<rparr>
                   else k) jobs)"
    using i f j(2) map_only_row [OF assms j(1),
        of "\<lambda>k. k\<lparr>status := Processing, started_at := Some now, updated_at := now\<rparr>"]
    by (simp add: get_next_job_def)
  then show ?thesis using True j by auto
qed

theorem get_next_job_fifo_witness:
  "distinct (map job_id example_jobs)
   \<and> (\<exists>j\<in>set example_jobs. eligible example_cfg j)
   \<and> get_next_job example_cfg 50 example_jobs
       = (Some (to_claimed (example_job 2 Pending 1 10)),
          [example_job 1 Pending 0 30,
           (example_job 2 Pending 1 10)\<lparr>status := Processing, started_at := Some 50,
              updated_at := 50\<rparr>,
           example_job 3 Completed 0 5, example_job 4 Pending 3 7])
   \<and> get_next_job example_cfg 50 [example_job 3 Completed 0 5, example_job 4 Pending 3 7]
       = (None, [example_job 3 Completed 0 5, example_job 4 Pending 3 7])"
proof -
  have d: "distinct (map job_id example_jobs)" by (simp add: queue_eval)
  have e: "\<exists>j\<in>set example_jobs. eligible example_cfg j" by (simp add: queue_eval)
  have r: "get_next_job example_cfg 50 example_jobs
       = (Some (to_claimed (example_job 2 Pending 1 10)),
          [example_job 1 Pending 0 30,
           (example_job 2 Pending 1 10)\<lparr>status := Processing, started_at := Some 50,
              updated_at := 50\<rparr>,
           example_job 3 Completed 0 5, example_job 4 Pending 3 7])"
    by (simp add: queue_eval)
  have d2: "distinct (map job_id [example_job 3 Completed 0 5, example_job 4 Pending 3 7])"
    by (simp add: queue_eval)
  have n: "\<not> (\<exists>j\<in>set [example_job 3 Completed 0 5, example_job 4 Pending 3 7].
               eligible example_cfg j)"
    by (simp add: queue_eval)
  have "get_next_job example_cfg 50 [example_job 3 Completed 0 5, example_job 4 Pending 3 7]
       = (None, [example_job 3 Completed 0 5, example_job 4 Pending 3 7])"
    using get_next_job_fifo [OF d2, of example_cfg 50] n by simp
  then show ?thesis using d e r by blast
qed

text \<open>
  C5 is about sessions that run the statement at the same time; what keeps them apart
  there is the row lock of the database, which is outside this development. One after
  the other, two calls never return the same job: the first leaves it in \<open>processing\<close>,
  and a job in \<open>processing\<close> is not eligible.
\<close>

lemma get_next_job_Some:
  assumes "get_next_job cfg now jobs = (Some cj, jobs')"
  shows "select_next_id cfg jobs = Some (cj_id cj)
         \<and> jobs' = map (\<lambda>k. if job_id k = cj_id cj
                              then k\<lparr>status := Processing, started_at := Some now,
                                     updated_at := now\<rparr>
                              else k) jobs"
proof -
  from assms obtain i where i: "select_next_id cfg jobs = Some i"
    by (cases "select_next_id cfg jobs") (auto simp: get_next_job_def)
  from assms i obtain j js where f: "filter (\<lambda>j. job_id j = i) jobs = j # js"
    by (cases "filter (\<lambda>j. job_id j = i) jobs") (auto simp: get_next_job_def)
  have "j \<in> set (filter (\<lambda>j. job_id j = i) jobs)" using f by simp
  then have "job_id j = i" by simp
  then show ?thesis using assms i f by (auto simp: get_next_job_def to_claimed_def)
qed

lemma get_next_job_twice:
  assumes "get_next_job cfg now jobs = (Some cj, jobs')"
    and "get_next_job cfg now' jobs' = (Some cj', jobs'')"
  shows "cj_id cj' \<noteq> cj_id cj"
proof
  assume eq: "cj_id cj' = cj_id cj"
  from get_next_job_Some [OF assms(1)]
  have jobs': "jobs' = map (\<lambda>k. if job_id k = cj_id cj
      then k\<lparr>status := Processing, started_at := Some now, updated_at := now\<rparr> else k) jobs"
    by simp
  from get_next_job_Some [OF assms(2)] have "select_next_id cfg jobs' = Some (cj_id cj')"
    by simp
  from select_next_id_Some [OF this] obtain j where
    j: "j \<in> set jobs'" "job_id j = cj_id cj'" "eligible cfg j" by blast
  from j(1) jobs' obtain k where "k \<in> set jobs"
    and "j = (if job_id k = cj_id cj
              then k\<lparr>status := Processing, started_at := Some now, updated_at := now\<rparr>
              else k)"
    by auto
  then have "status j = Processing" using j(2) eq by (auto split: if_splits)
  then show False using j(3) by (simp add: eligible_def)
qed

text \<open>What \<open>mark_job_failed\<close> writes when the database accepts the statement: the
  terminal state, or the retry with the creation time moved to the current time plus
  the backoff of the schedule (its last entry beyond its length). No other job
  changes.\<close>

lemma mark_job_failed_writes:
  assumes "job_row jobs i = Some j"
  shows "(a + 1 \<ge> MAX_RETRY_ATTEMPTS cfg \<and> refused e None = None \<longrightarrow>
            (\<exists>jobs'. mark_job_failed cfg refused now jobs i e a = Inr jobs'
               \<and> job_row jobs' i
                   = Some (j\<lparr>status := Failed, error_message := Some e, attempts := a + 1,
                             updated_at := now\<rparr>)
               \<and> (\<forall>i'. i' \<noteq> i \<longrightarrow> job_row jobs' i' = job_row jobs i')
               \<and> (\<forall>c. \<not> eligible c (j\<lparr>status := Failed, error_message := Some e,
                                       attempts := a + 1, updated_at := now\<rparr>))))
       \<and> (a + 1 < MAX_RETRY_ATTEMPTS cfg \<and> RETRY_BACKOFF_MINUTES cfg \<noteq> []
            \<and> refused e (Some (if a < length (RETRY_BACKOFF_MINUTES cfg)
                                then RETRY_BACKOFF_MINUTES cfg ! a
                                else last (RETRY_BACKOFF_MINUTES cfg))) = None \<longrightarrow>
            (\<exists>jobs'. mark_job_failed cfg refused now jobs i e a = Inr jobs'
               \<and> job_row jobs' i
                   = Some (j\<lparr>status := Pending, error_message := Some e, attempts := a + 1,
                             updated_at := now,
                             created_at := now + 60 *
                               (if a < length (RETRY_BACKOFF_MINUTES cfg)
                                then RETRY_BACKOFF_MINUTES cfg ! a
                                else last (RETRY_BACKOFF_MINUTES cfg))\<rparr>)
               \<and> (\<forall>i'. i' \<noteq> i \<longrightarrow> job_row jobs' i' = job_row jobs i')))"
proof (intro conjI impI)
  assume m: "MAX_RETRY_ATTEMPTS cfg \<le> a + 1 \<and> refused e None = None"
  let ?f = "\<lambda>k. k\<lparr>status := Failed, error_message := Some e, attempts := a + 1,
                   updated_at := now\<rparr>"
  have r: "mark_job_failed cfg refused now jobs i e a
      = Inr (map (\<lambda>k. if job_id k = i then ?f k else k) jobs)"
    using m by (simp add: mark_job_failed_def)
  have row: "job_row (map (\<lambda>k. if job_id k = i then ?f k else k) jobs) i' =
      (if i' = i then map_option ?f (job_row jobs i) else job_row jobs i')" for i'
    by (rule job_row_map) simp
  show "\<exists>jobs'. mark_job_failed cfg refused now jobs i e a = Inr jobs'
      \<and> job_row jobs' i = Some (?f j)
      \<and> (\<forall>i'. i' \<noteq> i \<longrightarrow> job_row jobs' i' = job_row jobs i')
      \<and> (\<forall>c. \<not> eligible c (?f j))"
    using r row assms by (simp add: eligible_def)
next
  let ?b = "if a < length (RETRY_BACKOFF_MINUTES cfg) then RETRY_BACKOFF_MINUTES cfg ! a
            else last (RETRY_BACKOFF_MINUTES cfg)"
  assume m: "a + 1 < MAX_RETRY_ATTEMPTS cfg \<and> RETRY_BACKOFF_MINUTES cfg \<noteq> []
      \<and> refused e (Some ?b) = None"
  let ?f = "\<lambda>k. k\<lparr>status := Pending, error_message := Some e, attempts := a + 1,
                   updated_at := now, created_at := now + 60 * ?b\<rparr>"
  have b: "backoff_minutes cfg (a + 1) = Inr ?b"
    using m by (simp add: backoff_minutes_def)
  have r: "mark_job_failed cfg refused now jobs i e a
      = Inr (map (\<lambda>k. if job_id k = i then ?f k else k) jobs)"
    using m b by (simp add: mark_job_failed_def)
  have row: "job_row (map (\<lambda>k. if job_id k = i then ?f k else k) jobs) i' =
      (if i' = i then map_option ?f (job_row jobs i) else job_row jobs i')" for i'
    by (rule job_row_map) simp
  show "\<exists>jobs'. mark_job_failed cfg refused now jobs i e a = Inr jobs'
      \<and> job_row jobs' i = Some (?f j)
      \<and> (\<forall>i'. i' \<noteq> i \<longrightarrow> job_row jobs' i' = job_row jobs i')"
    using r row assms by simp
qed

text \<open>Whenever \<open>mark_job_failed\<close> returns a job to \<open>pending\<close>, the job is eligible at
  once, whatever the schedule: eligibility reads the status and the attempts, never the
  clock.\<close>

lemma retry_eligible_at_once:
  assumes "job_row jobs i = Some j" and "a + 1 < MAX_RETRY_ATTEMPTS cfg"
    and "mark_job_failed cfg refused now jobs i e a = Inr jobs'"
  shows "\<exists>j'. job_row jobs' i = Some j' \<and> eligible cfg j'"
proof -
  from assms(2,3) obtain minutes where
    r: "jobs' = map (\<lambda>k. if job_id k = i
              then k\<lparr>status := Pending, error_message := Some e, attempts := a + 1,
                     updated_at := now, created_at := now + 60 * minutes\<rparr>
              else k) jobs"
    by (auto simp: mark_job_failed_def split: sum.splits option.splits)
  let ?f = "\<lambda>k. k\<lparr>status := Pending, error_message := Some e, attempts := a + 1,
                   updated_at := now, created_at := now + 60 * minutes\<rparr>"
  have "job_row (map (\<lambda>k. if job_id k = i then ?f k else k) jobs) i
      = (if i = i then map_option ?f (job_row jobs i) else job_row jobs i)"
    by (rule job_row_map) simp
  then have "job_row jobs' i = Some (?f j)" using r assms(1) by simp
  moreover have "eligible cfg (?f j)" using assms(2) by (simp add: eligible_def)
  ultimately show ?thesis by blast
qed

text \<open>Which job \<open>get_next_job\<close> returns does not depend on the time of the call.\<close>

lemma get_next_job_ignores_clock:
  "fst (get_next_job cfg now jobs) = fst (get_next_job cfg now' jobs)"
  by (simp add: get_next_job_def split: option.splits list.splits)

text \<open>
  C3 fails on the code in its last clause, that the retry becomes eligible no earlier
  than the creation time plus the backoff. \<open>mark_job_failed\<close> computes the backoff and
  writes \<open>created_at = NOW() + backoff\<close>, but the \<open>WHERE\<close> clause of \<open>get_next_job\<close>
  never compares \<open>created_at\<close> with \<open>NOW()\<close>: it only orders by it. Below, with the
  default schedule, a job created at second 0 is claimed at second 10 and fails then;
  its creation time becomes \<open>10 + 5 * 60 = 310\<close>, and the next \<open>get_next_job\<close>, still
  at second 10, returns it for its second attempt: before the old creation time plus 5
  minutes, and before the creation time just written.
\<close>

theorem retry_claimed_before_backoff:
  "get_next_job example_cfg 10 [example_job 1 Pending 0 0]
     = (Some (to_claimed (example_job 1 Pending 0 0)),
        [(example_job 1 Pending 0 0)\<lparr>status := Processing, started_at := Some 10,
            updated_at := 10\<rparr>])
   \<and> mark_job_failed example_cfg accepts 10
        [(example_job 1 Pending 0 0)\<lparr>status := Processing, started_at := Some 10,
            updated_at := 10\<rparr>] 1 ''timeout'' 0
     = Inr [(example_job 1 Pending 1 310)\<lparr>error_message := Some ''timeout'',
              started_at := Some 10, updated_at := 10\<rparr>]
   \<and> fst (get_next_job example_cfg 10
          [(example_job 1 Pending 1 310)\<lparr>error_message := Some ''timeout'',
              started_at := Some 10, updated_at := 10\<rparr>])
     = Some \<lparr>cj_id = 1, cj_client_id = ''client'', cj_content_id = 101,
             cj_content_type = ''instagram_posts'', cj_attempts = 1\<rparr>
   \<and> (10::int) < created_at (example_job 1 Pending 0 0)
                    + 60 * (RETRY_BACKOFF_MINUTES example_cfg ! 0)
   \<and> (10::int) < created_at (example_job 1 Pending 1 310)"
  by (simp add: queue_eval)

section \<open>lib/audio_extractor.py\<close>

text \<open>
  The state outside the worker's own variables: the three tables the worker reads and
  writes, with the database's verdict on the \<open>UPDATE\<close> of \<open>mark_job_failed\<close>; the
  temporary files that exist on local storage and the next name \<open>tempfile.mkstemp\<close>
  hands out; and the \<open>ffmpeg\<close> runs made so far to cut chunks, in order. \<open>mkstemp\<close>
  creates the file it names.
\<close>

record 'v post =
  post_id :: nat
  post_client_id :: string
  caption :: "pystr option"
  media_type :: string
  media_url :: "pystr option"
  thumbnail_url :: "pystr option"
  embedding :: "'v list option"
  embedding_model :: "string option"
  embedded_at :: "int option"
  transcript :: "pystr option"
  has_audio :: "bool option"
  audio_language :: "string option"

record child =
  child_id :: nat
  child_post_id :: nat
  child_client_id :: string
  child_media_url :: "pystr option"
  child_thumbnail_url :: "pystr option"
  child_media_type :: string

text \<open>One \<open>ffmpeg\<close> run that cuts a chunk: the input file, \<open>ss\<close>, \<open>t\<close> and the output
  file.\<close>

type_synonym cut_run = "path \<times> nat \<times> nat \<times> path"

record 'v world =
  enrichment_jobs :: "job list"
  instagram_posts :: "'v post list"
  instagram_post_children :: "child list"
  update_refused :: update_verdict
  files :: "path list"
  next_tmp :: path
  cut_runs :: "cut_run list"

definition mkstemp :: "'v world \<Rightarrow> path \<times> 'v world" where
  "mkstemp w = (next_tmp w, w\<lparr>files := files w @ [next_tmp w], next_tmp := Suc (next_tmp w)\<rparr>)"

text \<open>\<open>if os.path.exists(path): os.remove(path)\<close>\<close>

definition remove_if_exists :: "path \<Rightarrow> 'v world \<Rightarrow> 'v world" where
  "remove_if_exists p w = (if p \<in> set (files w) then w\<lparr>files := removeAll p (files w)\<rparr> else w)"

text \<open>
  The collaborators of the extractor are parameters: the HTTP download of the video
  (what it raises, if anything), \<open>ffmpeg.probe\<close> (the codec types of the streams; the
  duration of the format) and the two \<open>ffmpeg\<close> runs (video to WAV; one chunk cut out
  of the WAV at \<open>ss\<close> for \<open>t\<close> seconds). A duration is a Python float; it is kept as
  the real number it denotes, and the float division of \<open>split_audio_into_chunks\<close> is a
  parameter too, since it rounds.
\<close>

record media_env =
  http_download :: "pystr option \<Rightarrow> error option"
  ffprobe_streams :: "path \<Rightarrow> error + string list"
  ffmpeg_extract :: "path \<Rightarrow> path \<Rightarrow> error option"
  ffprobe_duration :: "path \<Rightarrow> error + real"
  ffmpeg_cut :: "path \<Rightarrow> nat \<Rightarrow> nat \<Rightarrow> path \<Rightarrow> error option"
  float_div :: "real \<Rightarrow> real \<Rightarrow> real"

text \<open>\<open>except ffmpeg.Error as e: raise Exception(...)\<close>; any other exception passes.\<close>

definition rewrap_ffmpeg :: "error \<Rightarrow> error" where
  "rewrap_ffmpeg e =
     (if exc_class_of e = FFmpegError then Err Exception (''FFmpeg error: '' @ str_of e) else e)"

text \<open>\<open>extract_audio_from_video\<close>; of the dictionary it returns, the duration.\<close>

definition extract_audio_from_video :: "media_env \<Rightarrow> path \<Rightarrow> path \<Rightarrow> error + real" where
  "extract_audio_from_video menv video_path audio_output_path =
     (case ffprobe_streams menv video_path of
        Inl e \<Rightarrow> Inl (rewrap_ffmpeg e)
      | Inr streams \<Rightarrow>
          (if filter (\<lambda>codec_type. codec_type = ''audio'') streams = []
           then Inl (Err NoAudioTrackError ''Video has no audio track'')
           else (case ffmpeg_extract menv video_path audio_output_path of
                   Some e \<Rightarrow> Inl (rewrap_ffmpeg e)
                 | None \<Rightarrow>
                     (case ffprobe_duration menv audio_output_path of
                        Inl e \<Rightarrow> Inl (rewrap_ffmpeg e)
                      | Inr duration \<Rightarrow> Inr duration))))"

record video_data =
  vd_video_path :: path
  vd_audio_path :: "path option"
  vd_has_audio :: bool
  vd_duration_seconds :: real

text \<open>The outer \<open>except Exception\<close> of \<open>process_video_for_transcription\<close>.\<close>

definition process_video_failed ::
  "error \<Rightarrow> path \<Rightarrow> path option \<Rightarrow> 'v world \<Rightarrow> (error + video_data) \<times> 'v world" where
  "process_video_failed e video_path audio_path w =
     (Inl (Err Exception (''Failed to process video: '' @ str_of e)),
      (case audio_path of
         None \<Rightarrow> remove_if_exists video_path w
       | Some a \<Rightarrow> remove_if_exists a (remove_if_exists video_path w)))"

definition process_video_for_transcription ::
  "media_env \<Rightarrow> pystr option \<Rightarrow> 'v world \<Rightarrow> (error + video_data) \<times> 'v world" where
  "process_video_for_transcription menv video_url w =
     (case mkstemp w of
        (video_path, w1) \<Rightarrow>
          (case http_download menv video_url of
             Some e \<Rightarrow> process_video_failed e video_path None w1
           | None \<Rightarrow>
               (case mkstemp w1 of
                  (audio_path, w2) \<Rightarrow>
                    (case extract_audio_from_video menv video_path audio_path of
                       Inr duration \<Rightarrow>
                         (Inr \<lparr>vd_video_path = video_path, vd_audio_path = Some audio_path,
                               vd_has_audio = True, vd_duration_seconds = duration\<rparr>, w2)
                     | Inl e \<Rightarrow>
                         (if exc_class_of e = NoAudioTrackError
                          then (Inr \<lparr>vd_video_path = video_path, vd_audio_path = None,
                                     vd_has_audio = False, vd_duration_seconds = 0\<rparr>,
                                remove_if_exists audio_path w2)
                          else process_video_failed e video_path (Some audio_path) w2)))))"

text \<open>Python's \<open>int(x)\<close> on a float truncates towards zero; \<open>x % y\<close> for a positive
  \<open>y\<close> is the exact remainder \<open>x - y * floor(x / y)\<close>.\<close>

definition py_int :: "real \<Rightarrow> int" where
  "py_int x = (if 0 \<le> x then \<lfloor>x\<rfloor> else \<lceil>x\<rceil>)"

definition py_fmod :: "real \<Rightarrow> real \<Rightarrow> real" where
  "py_fmod x y = x - y * of_int \<lfloor>x / y\<rfloor>"

text \<open>
  The finite values of a Python float (IEEE binary64): an integer of magnitude below
  \<open>2^53\<close> times a power of two, the exponent between \<open>-1074\<close> and \<open>971\<close>. A float
  operation that is not exact gives a value of this set nearest to the exact result;
  this is what \<open>float_div\<close> is taken to do.
\<close>

definition is_double :: "real \<Rightarrow> bool" where
  "is_double x =
     (\<exists>(m::int) (n::nat). \<bar>m\<bar> < 2 ^ 53
        \<and> ((n \<le> 971 \<and> x = of_int m * 2 ^ n) \<or> (n \<le> 1074 \<and> x = of_int m / 2 ^ n)))"

definition nearest_double :: "real \<Rightarrow> real \<Rightarrow> bool" where
  "nearest_double r x = (is_double r \<and> (\<forall>y. is_double y \<longrightarrow> \<bar>r - x\<bar> \<le> \<bar>y - x\<bar>))"

text \<open>
  The loop \<open>for i in range(num_chunks)\<close> of \<open>split_audio_into_chunks\<close>: the chunk's
  file is made by \<open>mkstemp\<close>, then \<open>ffmpeg\<close> runs on the audio with \<open>ss = i * c\<close> and
  \<open>t = c\<close> (the run is recorded, whether it succeeds or not), then the path is appended
  to \<open>chunk_paths\<close>. On an exception the loop ends with the exception and the paths
  appended so far.
\<close>

definition run_cut :: "cut_run \<Rightarrow> 'v world \<Rightarrow> 'v world" where
  "run_cut r w = w\<lparr>cut_runs := cut_runs w @ [r]\<rparr>"

fun chunk_loop ::
  "media_env \<Rightarrow> path \<Rightarrow> nat \<Rightarrow> nat list \<Rightarrow> path list \<Rightarrow> 'v world
     \<Rightarrow> (error \<times> path list + path list) \<times> 'v world" where
  "chunk_loop menv audio_path c [] chunk_paths w = (Inr chunk_paths, w)"
| "chunk_loop menv audio_path c (i # rest) chunk_paths w =
     (case mkstemp w of
        (chunk_path, w1) \<Rightarrow>
          (case ffmpeg_cut menv audio_path (i * c) c chunk_path of
             Some e \<Rightarrow>
               (Inl (e, chunk_paths), run_cut (audio_path, i * c, c, chunk_path) w1)
           | None \<Rightarrow>
               chunk_loop menv audio_path c rest (chunk_paths @ [chunk_path])
                 (run_cut (audio_path, i * c, c, chunk_path) w1)))"

definition num_chunks :: "media_env \<Rightarrow> real \<Rightarrow> nat \<Rightarrow> int" where
  "num_chunks menv duration c =
     py_int (float_div menv duration (of_nat c))
       + (if py_fmod duration (of_nat c) > 0 then 1 else 0)"

text \<open>
  \<open>split_audio_into_chunks(audio_path, chunk_duration_seconds)\<close>. When the first probe
  raises, the handler reads \<open>chunk_paths\<close> before it was assigned and raises
  \<open>UnboundLocalError\<close>; a chunk duration of 0 raises \<open>ZeroDivisionError\<close> after the
  assignment.
\<close>

definition split_audio_into_chunks ::
  "media_env \<Rightarrow> path \<Rightarrow> nat \<Rightarrow> 'v world \<Rightarrow> (error + path list) \<times> 'v world" where
  "split_audio_into_chunks menv audio_path c w =
     (case ffprobe_duration menv audio_path of
        Inl e \<Rightarrow>
          (Inl (Err UnboundLocalError
                  ''local variable chunk_paths referenced before assignment''), w)
      | Inr duration \<Rightarrow>
          (if c = 0
           then (Inl (Err Exception
                   ''Failed to split audio into chunks: float division by zero''), w)
           else (case chunk_loop menv audio_path c [0..<nat (num_chunks menv duration c)] [] w of
                   (Inr chunk_paths, w') \<Rightarrow> (Inr chunk_paths, w')
                 | (Inl (e, chunk_paths), w') \<Rightarrow>
                     (Inl (Err Exception (''Failed to split audio into chunks: '' @ str_of e)),
                      fold remove_if_exists chunk_paths w'))))"

text \<open>\<open>cleanup_temp_files(file_paths)\<close>: every path that is not \<open>None\<close> and exists is
  removed.\<close>

definition cleanup_temp_files :: "path option list \<Rightarrow> 'v world \<Rightarrow> 'v world" where
  "cleanup_temp_files file_paths w =
     fold (\<lambda>p w'. case p of None \<Rightarrow> w' | Some q \<Rightarrow> remove_if_exists q w') file_paths w"


section \<open>main.py: processing one job\<close>

text \<open>\<open>fetch_content\<close>: the post's row for the id and the client (of the row, the code
  reads id, caption, media type, media URL and thumbnail URL).\<close>

definition fetch_content :: "'v world \<Rightarrow> string \<Rightarrow> nat \<Rightarrow> string \<Rightarrow> error + 'v post" where
  "fetch_content w content_type content_id client_id =
     (if content_type \<noteq> ''instagram_posts''
      then Inl (Err Exception
             (''Unsupported content type for multimodal embedding: '' @ content_type))
      else (case filter (\<lambda>p. post_id p = content_id \<and> post_client_id p = client_id)
                   (instagram_posts w) of
              [] \<Rightarrow> Inl (Err Exception (''Content not found: '' @ content_type @ ''/''
                           @ show_nat content_id))
            | content # _ \<Rightarrow> Inr content))"

text \<open>\<open>ORDER BY id LIMIT 1\<close> over the children of the post: the child of least id.\<close>

fun first_child :: "child \<Rightarrow> child list \<Rightarrow> child" where
  "first_child c [] = c"
| "first_child c (d # ds) = (if child_id d < child_id c then first_child d ds else first_child c ds)"

text \<open>\<open>child[2] == 'VIDEO' and child[1] or child[0]\<close>: Python's \<open>and\<close> and \<open>or\<close> give
  one of their operands, so a video child whose thumbnail URL is \<open>None\<close> or empty gives
  its media URL.\<close>

definition child_url :: "child \<Rightarrow> pystr option" where
  "child_url c =
     (if child_media_type c = ''VIDEO'' \<and> truthy (child_thumbnail_url c)
      then child_thumbnail_url c
      else child_media_url c)"

definition get_primary_media_url :: "'v world \<Rightarrow> 'v post \<Rightarrow> string \<Rightarrow> pystr option" where
  "get_primary_media_url w post client_id =
     (if media_type post = ''IMAGE'' then media_url post
      else if media_type post = ''VIDEO'' then thumbnail_url post
      else if media_type post = ''CAROUSEL_ALBUM'' then
        (case filter (\<lambda>c. child_post_id c = post_id post \<and> child_client_id c = client_id)
                (instagram_post_children w) of
           [] \<Rightarrow> None
         | c # cs \<Rightarrow> child_url (first_child c cs))
      else None)"

definition store_embedding :: "int \<Rightarrow> nat \<Rightarrow> string \<Rightarrow> 'v list \<Rightarrow> 'v world \<Rightarrow> 'v world" where
  "store_embedding now content_id client_id v w =
     w\<lparr>instagram_posts :=
         map (\<lambda>p. if post_id p = content_id \<and> post_client_id p = client_id
                   then p\<lparr>embedding := Some v, embedding_model := Some ''embedding-001'',
                          embedded_at := Some now\<rparr>
                   else p) (instagram_posts w)\<rparr>"

definition store_transcript ::
  "nat \<Rightarrow> string \<Rightarrow> pystr option \<Rightarrow> bool \<Rightarrow> string \<Rightarrow> 'v world \<Rightarrow> 'v world" where
  "store_transcript content_id client_id text has_audio_flag language w =
     w\<lparr>instagram_posts :=
         map (\<lambda>p. if post_id p = content_id \<and> post_client_id p = client_id
                   then p\<lparr>transcript := text, has_audio := Some has_audio_flag,
                          audio_language := Some language\<rparr>
                   else p) (instagram_posts w)\<rparr>"

definition complete_job :: "int \<Rightarrow> nat \<Rightarrow> 'v world \<Rightarrow> 'v world" where
  "complete_job now i w = w\<lparr>enrichment_jobs := mark_job_completed now (enrichment_jobs w) i\<rparr>"

text \<open>The variables the \<open>finally\<close> clause of \<open>process_job\<close> reads.\<close>

record locals =
  l_video_path :: "path option"
  l_audio_path :: "path option"
  l_chunk_paths :: "path list"

definition no_locals :: locals where
  "no_locals = \<lparr>l_video_path = None, l_audio_path = None, l_chunk_paths = []\<rparr>"

text \<open>\<open>post['caption'] or ''\<close>\<close>

definition caption_or_empty :: "'v post \<Rightarrow> pystr" where
  "caption_or_empty post = (case caption post of None \<Rightarrow> [] | Some s \<Rightarrow> s)"

text \<open>
  Step 2 of the video branch: the transcript, the chunk paths and the state after the
  inner \<open>try\<close>. \<open>chunk_paths\<close> is assigned only when \<open>split_audio_into_chunks\<close> returns.
  The pipeline cuts chunks of 50 seconds.
\<close>

definition transcribe_video ::
  "speech_env \<Rightarrow> media_env \<Rightarrow> video_data \<Rightarrow> 'v world \<Rightarrow> pystr option \<times> path list \<times> 'v world" where
  "transcribe_video senv menv vd w =
     (if vd_has_audio vd then
        (case vd_audio_path vd of
           None \<Rightarrow> (None, [], w)
         | Some audio_path \<Rightarrow>
             (if vd_duration_seconds vd \<le> 60 then
                (case transcribe_audio senv audio_path ''en'' of
                   Inl e \<Rightarrow> (None, [], w)
                 | Inr text \<Rightarrow> (Some text, [], w))
              else
                (case split_audio_into_chunks menv audio_path 50 w of
                   (Inl e, w') \<Rightarrow> (None, [], w')
                 | (Inr chunk_paths, w') \<Rightarrow>
                     (case transcribe_long_audio senv chunk_paths ''en'' of
                        Inl e \<Rightarrow> (None, chunk_paths, w')
                      | Inr text \<Rightarrow> (Some text, chunk_paths, w')))))
      else (None, [], w))"

text \<open>The end of the \<open>try\<close> block: store the embedding, mark the job completed.\<close>

definition embed_and_complete ::
  "'v embed_env \<Rightarrow> int \<Rightarrow> claimed_job \<Rightarrow> pystr \<Rightarrow> pystr option \<Rightarrow> locals \<Rightarrow> 'v world
     \<Rightarrow> error option \<times> locals \<times> 'v world" where
  "embed_and_complete eenv now job text url ls w =
     (case fst (generate_multimodal_embedding eenv (Some text) url) of
        Inl e \<Rightarrow> (Some e, ls, w)
      | Inr v \<Rightarrow>
          (None, ls,
           complete_job now (cj_id job)
             (store_embedding now (cj_content_id job) (cj_client_id job) v w)))"

definition process_video_post ::
  "'v embed_env \<Rightarrow> speech_env \<Rightarrow> media_env \<Rightarrow> int \<Rightarrow> claimed_job \<Rightarrow> 'v post \<Rightarrow> 'v world
     \<Rightarrow> error option \<times> locals \<times> 'v world" where
  "process_video_post eenv senv menv now job post w =
     (case process_video_for_transcription menv (media_url post) w of
        (Inl e, w1) \<Rightarrow> (Some e, no_locals, w1)
      | (Inr vd, w1) \<Rightarrow>
          (case transcribe_video senv menv vd w1 of
             (text, chunk_paths, w2) \<Rightarrow>
               embed_and_complete eenv now job
                 (caption_or_empty post
                    @ (if truthy text then [0x20] @ the text else []))
                 (thumbnail_url post)
                 \<lparr>l_video_path = Some (vd_video_path vd), l_audio_path = vd_audio_path vd,
                   l_chunk_paths = chunk_paths\<rparr>
                 (store_transcript (cj_content_id job) (cj_client_id job) text
                    (vd_has_audio vd) ''en'' w2)))"

text \<open>The \<open>try\<close> block of \<open>process_job\<close>: the exception it ends with, if any, the
  variables of the \<open>finally\<close> clause and the state.\<close>

definition process_job_try ::
  "'v embed_env \<Rightarrow> speech_env \<Rightarrow> media_env \<Rightarrow> int \<Rightarrow> claimed_job \<Rightarrow> 'v world
     \<Rightarrow> error option \<times> locals \<times> 'v world" where
  "process_job_try eenv senv menv now job w =
     (case fetch_content w (cj_content_type job) (cj_content_id job) (cj_client_id job) of
        Inl e \<Rightarrow> (Some e, no_locals, w)
      | Inr post \<Rightarrow>
          (if media_type post = ''VIDEO'' then process_video_post eenv senv menv now job post w
           else if media_type post = ''IMAGE'' then
             embed_and_complete eenv now job (caption_or_empty post) (media_url post)
               no_locals w
           else if media_type post = ''CAROUSEL_ALBUM'' then
             (if \<not> truthy (get_primary_media_url w post (cj_client_id job))
              then (None, no_locals, complete_job now (cj_id job) w)
              else embed_and_complete eenv now job (caption_or_empty post)
                     (get_primary_media_url w post (cj_client_id job)) no_locals w)
           else (Some (Err Exception (''Unsupported media type: '' @ media_type post)),
                 no_locals, w)))"

text \<open>
  \<open>process_job(job)\<close>: the \<open>try\<close> block, the \<open>except\<close> clause (\<open>mark_job_failed\<close> with
  the exception's message, which may itself raise) and the \<open>finally\<close> clause. The
  result is the exception that leaves the function, if any, and the state.
\<close>

definition process_job ::
  "config \<Rightarrow> 'v embed_env \<Rightarrow> speech_env \<Rightarrow> media_env \<Rightarrow> int \<Rightarrow> claimed_job \<Rightarrow> 'v world
     \<Rightarrow> error option \<times> 'v world" where
  "process_job cfg eenv senv menv now job w =
     (case process_job_try eenv senv menv now job w of
        (outcome, ls, w1) \<Rightarrow>
          (case (case outcome of
                   None \<Rightarrow> (None, w1)
                 | Some e \<Rightarrow>
                     (case mark_job_failed cfg (update_refused w1) now (enrichment_jobs w1)
                             (cj_id job) (str_of e)
                             (cj_attempts job) of
                        Inl e' \<Rightarrow> (Some e', w1)
                      | Inr jobs' \<Rightarrow> (None, w1\<lparr>enrichment_jobs := jobs'\<rparr>))) of
             (raised, w2) \<Rightarrow>
               (raised,
                cleanup_temp_files
                  ([l_video_path ls, l_audio_path ls] @ map Some (l_chunk_paths ls)) w2)))"

text \<open>
  A video job: the download and the extraction succeed, the audio lasts 130 seconds, and
  \<open>ffmpeg\<close> fails on the chunk that starts at the given second, if one is given. The
  float division gives the doubles nearest to 130 / 60 and 130 / 50. The job's post has
  a caption, a media URL and a thumbnail URL.
\<close>

definition example_media_env :: "nat option \<Rightarrow> media_env" where
  "example_media_env fail_at =
     \<lparr>http_download = (\<lambda>url. None),
      ffprobe_streams = (\<lambda>p. Inr [''video'', ''audio'']),
      ffmpeg_extract = (\<lambda>video audio. None),
      ffprobe_duration = (\<lambda>p. Inr 130),
      ffmpeg_cut = (\<lambda>audio ss t out.
        if Some ss = fail_at then Some (Err FFmpegError ''Invalid data found'') else None),
      float_div = (\<lambda>x y.
        if x = 130 \<and> y = 60 then 4878899596318037 / 2 ^ 51
        else if x = 130 \<and> y = 50 then 5854679515581645 / 2 ^ 51
        else x / y)\<rparr>"

definition example_post :: "string \<Rightarrow> int post" where
  "example_post mt =
     \<lparr>post_id = 101, post_client_id = ''client'', caption = Some [104, 105],
      media_type = mt, media_url = Some [109], thumbnail_url = Some [116],
      embedding = None, embedding_model = None, embedded_at = None, transcript = None,
      has_audio = None, audio_language = None\<rparr>"

definition example_world :: "string \<Rightarrow> child list \<Rightarrow> int world" where
  "example_world mt children =
     \<lparr>enrichment_jobs = [example_job 1 Processing 0 0],
      instagram_posts = [example_post mt],
      instagram_post_children = children,
      update_refused = accepts,
      files = [], next_tmp = 0, cut_runs = []\<rparr>"

lemmas job_eval = process_job_def process_job_try_def process_video_post_def
  embed_and_complete_def transcribe_video_def fetch_content_def store_embedding_def
  store_transcript_def complete_job_def mark_job_completed_def cleanup_temp_files_def
  remove_if_exists_def mkstemp_def split_audio_into_chunks_def num_chunks_def py_int_def
  py_fmod_def process_video_for_transcription_def process_video_failed_def
  extract_audio_from_video_def rewrap_ffmpeg_def caption_or_empty_def no_locals_def
  get_primary_media_url_def child_url_def run_cut_def
  example_media_env_def example_post_def example_world_def

definition example_child :: "nat \<Rightarrow> string \<Rightarrow> pystr option \<Rightarrow> child" where
  "example_child i mt thumb =
     \<lparr>child_id = i, child_post_id = 101, child_client_id = ''client'',
      child_media_url = Some [109, 112, 52], child_thumbnail_url = thumb,
      child_media_type = mt\<rparr>"

section \<open>Claims about \<open>split_audio_into_chunks\<close>\<close>

lemma chunk_loop_ok:
  "(\<forall>k<length idxs. ffmpeg_cut menv a ((idxs ! k) * c) c (next_tmp w + k) = None) \<Longrightarrow>
   chunk_loop menv a c idxs cps w
     = (Inr (cps @ [next_tmp w..<next_tmp w + length idxs]),
        w\<lparr>files := files w @ [next_tmp w..<next_tmp w + length idxs],
          next_tmp := next_tmp w + length idxs,
          cut_runs := cut_runs w
            @ map (\<lambda>(i, p). (a, i * c, c, p))
                (zip idxs [next_tmp w..<next_tmp w + length idxs])\<rparr>)"
proof (induction idxs arbitrary: cps w)
  case Nil
  then show ?case by simp
next
  case (Cons i rest)
  let ?w1 = "run_cut (a, i * c, c, next_tmp w)
               (w\<lparr>files := files w @ [next_tmp w], next_tmp := Suc (next_tmp w)\<rparr>)"
  have cut0: "ffmpeg_cut menv a (i * c) c (next_tmp w) = None"
    using Cons.prems by (metis add.right_neutral length_greater_0_conv list.distinct(1) nth_Cons_0)
  have rest: "\<forall>k<length rest. ffmpeg_cut menv a ((rest ! k) * c) c (next_tmp ?w1 + k) = None"
  proof (intro allI impI)
    fix k assume "k < length rest"
    then have "ffmpeg_cut menv a (((i # rest) ! Suc k) * c) c (next_tmp w + Suc k) = None"
      using Cons.prems by (metis Suc_less_eq length_Cons)
    then show "ffmpeg_cut menv a ((rest ! k) * c) c (next_tmp ?w1 + k) = None"
      by (simp add: run_cut_def)
  qed
  have upt: "[next_tmp w..<next_tmp w + length (i # rest)]
      = next_tmp w # [Suc (next_tmp w)..<Suc (next_tmp w) + length rest]"
    by (simp add: upt_rec)
  have step: "chunk_loop menv a c (i # rest) cps w
      = chunk_loop menv a c rest (cps @ [next_tmp w]) ?w1"
    using cut0 by (simp add: mkstemp_def)
  show ?case
    unfolding step Cons.IH [OF rest, of "cps @ [next_tmp w]"] upt
    by (simp add: run_cut_def)
qed

text \<open>The runs of a loop over \<open>range(n)\<close>, by index.\<close>

lemma cut_runs_range:
  "map (\<lambda>(i, p). (a, i * c, c, p)) (zip [0..<n] [m..<m + n])
     = map (\<lambda>i. (a, i * c, c, [m..<m + n] ! i)) [0..<n]"
  by (rule nth_equalityI) simp_all

lemma is_double_int: "\<bar>k\<bar> < 2 ^ 53 \<Longrightarrow> is_double (of_int k)"
  unfolding is_double_def by (rule exI [of _ k], rule exI [of _ 0]) simp

lemma is_double_below:
  assumes "0 \<le> k" "k + 1 \<le> 2 ^ (53 - n)" "n \<le> 53"
  shows "is_double (of_int k + 1 - 1 / 2 ^ n)"
proof -
  let ?m = "(k + 1) * 2 ^ n - 1"
  have "(k + 1) * 2 ^ n \<le> 2 ^ (53 - n) * (2 ^ n :: int)"
    using assms(2) by (simp add: mult_right_mono)
  also have "\<dots> = 2 ^ 53" using assms(3) by (simp flip: power_add)
  finally have up: "?m < 2 ^ 53" by simp
  have "(1::int) \<le> 2 ^ n" by simp
  then have "1 * 1 \<le> (k + 1) * (2 ^ n :: int)"
    using assms(1) by (intro mult_mono) simp_all
  then have lo: "0 \<le> ?m" by simp
  have "of_int k + 1 - 1 / 2 ^ n = (of_int ?m :: real) / 2 ^ n"
    by (simp add: field_simps)
  moreover have "\<bar>?m\<bar> < 2 ^ 53" using up lo by simp
  ultimately show ?thesis unfolding is_double_def using assms(3)
    by (intro exI [of _ ?m] exI [of _ n]) auto
qed


lemma double_gap:
  assumes "is_double d" and "d < 2 ^ 53" and "d < of_int j"
  shows "d < 2 ^ 53 * (of_int j - d)"
proof -
  from assms(1) obtain m :: int and n :: nat where m: "\<bar>m\<bar> < 2 ^ 53"
    and c: "d = of_int m * 2 ^ n \<or> d = of_int m / 2 ^ n"
    unfolding is_double_def by blast
  from c show ?thesis
  proof
    assume d: "d = of_int m * 2 ^ n"
    then have "d = of_int (m * 2 ^ n)" by simp
    then have "(of_int (m * 2 ^ n) :: real) < of_int j" using assms(3) by simp
    then have "m * 2 ^ n < j" by (simp only: of_int_less_iff)
    then have "1 \<le> j - m * 2 ^ n" by simp
    then have "(1::real) \<le> of_int (j - m * 2 ^ n)" by (simp only: of_int_1_le_iff)
    then have "1 \<le> of_int j - d" using d by simp
    then have "(2::real) ^ 53 * 1 \<le> 2 ^ 53 * (of_int j - d)"
      by (intro mult_left_mono) simp_all
    then show ?thesis using assms(2) by simp
  next
    assume d: "d = of_int m / 2 ^ n"
    have p: "(0::real) < 2 ^ n" by simp
    have "of_int m < of_int j * (2::real) ^ n"
      using assms(3) d p by (simp add: pos_divide_less_eq)
    then have "(of_int m :: real) < of_int (j * 2 ^ n)" by simp
    then have "m < j * 2 ^ n" by (simp only: of_int_less_iff)
    then have "1 \<le> j * 2 ^ n - m" by simp
    then have "(1::real) \<le> of_int (j * 2 ^ n - m)" by (simp only: of_int_1_le_iff)
    then have "1 \<le> (of_int j - d) * 2 ^ n" using d by (simp add: algebra_simps)
    then have g: "1 / 2 ^ n \<le> of_int j - d" using p by (simp add: pos_divide_le_eq)
    have "of_int m < (2::real) ^ 53" using m by (simp add: abs_less_iff flip: of_int_less_iff)
    then have "d < 2 ^ 53 / 2 ^ n" using d p by (simp add: divide_strict_right_mono)
    also have "\<dots> = 2 ^ 53 * (1 / 2 ^ n)" by simp
    also have "\<dots> \<le> 2 ^ 53 * (of_int j - d)" using g by (intro mult_left_mono) simp_all
    finally show ?thesis .
  qed
qed


lemma floor_nearest_double:
  assumes dbl: "is_double d" and dpos: "0 < d" and dlt: "d < 2 ^ 53" and cpos: "0 < c"
    and near: "nearest_double r (d / of_nat c)"
  shows "\<lfloor>r\<rfloor> = \<lfloor>d / of_nat c\<rfloor>"
proof -
  define q where "q = d / of_nat c"
  define k where "k = \<lfloor>q\<rfloor>"
  define D where "D = of_int ((k + 1) * int c) - d"
  define U :: real where "U = 2 ^ 52"
  have U0: "0 < U" by (simp add: U_def)
  have c1: "(1::real) \<le> of_nat c" and c0: "(0::real) < of_nat c" using cpos by simp_all
  have qpos: "0 < q" using dpos c0 by (simp add: q_def)
  have kq: "of_int k \<le> q" and qk: "q < of_int k + 1" by (simp_all add: k_def)
  have k0: "0 \<le> k" using qpos by (simp add: k_def)
  have "d \<le> d * of_nat c" using dpos c1 by simp
  then have qd: "q \<le> d" using c0 by (simp add: q_def pos_divide_le_eq)
  have kc: "of_int k * of_nat c \<le> d" using kq c0 by (simp add: q_def pos_le_divide_eq)
  have "d < (of_int k + 1) * of_nat c" using qk c0 by (simp add: q_def pos_divide_less_eq)
  then have dj: "d < of_int ((k + 1) * int c)" by simp
  have "d < 2 ^ 53 * D" unfolding D_def using dbl dlt dj by (rule double_gap)
  then have gap: "d < 2 * (U * D)" by (simp add: U_def)
  have Dq: "D = (of_int k + 1 - q) * of_nat c"
    using c0 by (simp add: D_def q_def field_simps)
  have cancel: "x < 2 * U * (of_int k + 1 - q)" if "x * of_nat c < 2 * (U * D)" for x
  proof -
    have "x * of_nat c < (2 * U * (of_int k + 1 - q)) * of_nat c"
      using that by (simp add: Dq algebra_simps)
    then show ?thesis using c0 by (simp only: mult_less_cancel_right_pos)
  qed
  have near': "is_double y \<Longrightarrow> \<bar>r - q\<bar> \<le> \<bar>y - q\<bar>" for y
    using near unfolding nearest_double_def q_def by blast
  have "of_int k < (2::real) ^ 53" using kq qd dlt by linarith
  then have k53: "k < 2 ^ 53" by (simp flip: of_int_less_iff)
  have lower: "of_int k \<le> r"
  proof -
    have "is_double (of_int k)" using k0 k53 by (intro is_double_int) simp
    from near' [OF this] show ?thesis using kq by linarith
  qed
  have upper: "r < of_int k + 1"
  proof (rule ccontr)
    assume "\<not> r < of_int k + 1"
    then have far: "of_int k + 1 - q \<le> \<bar>r - q\<bar>" using qk by linarith
    have "\<exists>y. is_double y \<and> \<bar>y - q\<bar> < of_int k + 1 - q"
    proof (cases "k = 0")
      case True
      show ?thesis
      proof (cases "q < 1 / 2")
        case True
        have "is_double 0" using is_double_int [of 0] by simp
        then show ?thesis using True \<open>k = 0\<close> qpos by (intro exI [of _ 0]) simp
      next
        case False
        have "is_double (of_int 0 + 1 - 1 / 2 ^ 53)"
          by (rule is_double_below) simp_all
        then have y: "is_double (1 - 1 / (2 * U))" by (simp add: U_def)
        have "of_nat c \<le> 2 * d" using False c0 by (simp add: q_def pos_le_divide_eq)
        then have "(1 / 2) * of_nat c < 2 * (U * D)" using gap by linarith
        then have "1 / 2 < 2 * U * (of_int k + 1 - q)" by (rule cancel)
        then have "1 < (2 * (1 - q)) * (2 * U)" using True by (simp add: algebra_simps)
        then have "1 / (2 * U) < 2 * (1 - q)" using U0 by (simp add: pos_divide_less_eq)
        moreover have "0 < 1 / (2 * U)" using U0 by simp
        ultimately show ?thesis using y True
          by (intro exI [of _ "1 - 1 / (2 * U)"]) (simp add: abs_less_iff)
      qed
    next
      case False
      then have "1 \<le> nat k" using k0 by simp
      from ex_power_ivl1 [OF order_refl this] obtain t where
        t: "2 ^ t \<le> nat k" "nat k < 2 ^ (t + 1)" by blast
      have "int (2 ^ t) \<le> k" using t(1) k0 by linarith
      then have tk: "(2::int) ^ t \<le> k" by simp
      have "k < int (2 ^ (t + 1))" using t(2) k0 by linarith
      then have kt: "k < 2 ^ (t + 1)" by simp
      have "(2::int) ^ t < 2 ^ 53" using tk k53 by linarith
      then have "t < 53" by (simp only: power_strict_increasing_iff)
      then have t52: "t \<le> 52" by simp
      have y: "is_double (of_int k + 1 - 1 / 2 ^ (52 - t))"
      proof (rule is_double_below [OF k0])
        have "53 - (52 - t) = t + 1" using t52 by simp
        then show "k + 1 \<le> 2 ^ (53 - (52 - t))" using kt by simp
        show "52 - t \<le> 53" by simp
      qed
      have "(2::real) ^ 52 = 2 ^ (52 - t) * 2 ^ t" using t52 by (simp flip: power_add)
      then have u: "(1::real) / 2 ^ (52 - t) = 2 ^ t / U"
        by (simp add: U_def field_simps)
      have "(of_int (2 ^ t) :: real) \<le> of_int k" using tk by (simp only: of_int_le_iff)
      then have "(2::real) ^ t \<le> of_int k" by simp
      then have "(2::real) ^ t * of_nat c \<le> of_int k * of_nat c"
        using c0 by (intro mult_right_mono) simp_all
      then have "(2::real) ^ t * of_nat c < 2 * (U * D)" using kc gap by linarith
      then have "(2::real) ^ t < 2 * U * (of_int k + 1 - q)" by (rule cancel)
      then have "(2::real) ^ t < (2 * (of_int k + 1 - q)) * U" by (simp add: algebra_simps)
      then have "(2::real) ^ t / U < 2 * (of_int k + 1 - q)"
        using U0 by (simp add: pos_divide_less_eq)
      then have "1 / 2 ^ (52 - t) < 2 * (of_int k + 1 - q)" using u by simp
      moreover have "(0::real) < 1 / 2 ^ (52 - t)" by simp
      ultimately show ?thesis using y
        by (intro exI [of _ "of_int k + 1 - 1 / 2 ^ (52 - t)"]) (simp add: abs_less_iff)
    qed
    then obtain y where "is_double y" "\<bar>y - q\<bar> < of_int k + 1 - q" by blast
    then show False using near' [of y] far by linarith
  qed
  have "\<lfloor>r\<rfloor> = k" using lower upper by (rule floor_unique)
  then show ?thesis by (simp add: k_def q_def)
qed


lemma nearest_double_binade:
  assumes x: "2 \<le> x" and m: "\<bar>of_int m - x * 2 ^ 51\<bar> \<le> 1 / 2" and m53: "m < 2 ^ 53"
  shows "nearest_double (of_int m / 2 ^ 51) x"
proof -
  define S :: real where "S = 2 ^ 51"
  have S0: "0 < S" by (simp add: S_def)
  have m': "\<bar>of_int m - x * S\<bar> \<le> 1 / 2" using m by (simp add: S_def)
  have "2 * S \<le> x * S" using x S0 by simp
  moreover have "1 \<le> S" by (simp add: S_def)
  ultimately have "0 < (of_int m :: real)" using m' by linarith
  then have m0: "0 < m" by simp
  have dbl: "is_double (of_int m / 2 ^ 51)"
    unfolding is_double_def using m0 m53
    by (intro exI [of _ m] exI [of _ 51]) simp
  have "\<bar>of_int m / S - x\<bar> \<le> \<bar>y - x\<bar>" if y: "is_double y" for y
  proof (rule ccontr)
    assume "\<not> \<bar>of_int m / S - x\<bar> \<le> \<bar>y - x\<bar>"
    then have lt: "\<bar>y - x\<bar> < \<bar>of_int m / S - x\<bar>" by simp
    have ab: "\<bar>z\<bar> * S = \<bar>z * S\<bar>" for z using S0 by (simp add: abs_mult)
    have "(of_int m / S - x) * S = of_int m - x * S" using S0 by (simp add: left_diff_distrib)
    then have rs: "\<bar>of_int m / S - x\<bar> * S = \<bar>of_int m - x * S\<bar>"
      using ab [of "of_int m / S - x"] by simp
    have "(y - x) * S = y * S - x * S" by (simp add: left_diff_distrib)
    then have ls: "\<bar>y - x\<bar> * S = \<bar>y * S - x * S\<bar>" using ab [of "y - x"] by simp
    have "\<bar>y - x\<bar> * S < \<bar>of_int m / S - x\<bar> * S"
      using lt S0 by (simp only: mult_less_cancel_right_pos)
    then have ys: "\<bar>y * S - x * S\<bar> < 1 / 2" using rs ls m' by linarith
    then have near: "\<bar>y * S - of_int m\<bar> < 1" using m' by linarith
    have int_case: False if "y * S = of_int j" for j :: int
    proof -
      have "\<bar>(of_int (j - m) :: real)\<bar> < 1" using near that by simp
      then have "\<bar>j - m\<bar> < 1" by (metis of_int_abs of_int_less_1_iff)
      then have "j = m" by simp
      then have "y = of_int m / S" using that S0 by (simp add: field_simps)
      then show False using lt by simp
    qed
    from y obtain M :: int and N :: nat where M: "\<bar>M\<bar> < 2 ^ 53"
      and c: "y = of_int M * 2 ^ N \<or> (N \<le> 1074 \<and> y = of_int M / 2 ^ N)"
      unfolding is_double_def by blast
    from c show False
    proof
      assume "y = of_int M * 2 ^ N"
      then have "y * S = of_int (M * 2 ^ N * 2 ^ 51)" by (simp add: S_def)
      then show False by (rule int_case)
    next
      assume yN: "N \<le> 1074 \<and> y = of_int M / 2 ^ N"
      show False
      proof (cases "N \<le> 51")
        case True
        then have e: "S = 2 ^ (51 - N) * 2 ^ N" by (simp add: S_def flip: power_add)
        from yN have yM: "y = of_int M / 2 ^ N" by simp
        have "y * S = of_int M / 2 ^ N * (2 ^ (51 - N) * 2 ^ N)" by (simp only: yM e)
        also have "\<dots> = of_int M * 2 ^ (51 - N)" by simp
        also have "\<dots> = of_int (M * 2 ^ (51 - N))" by simp
        finally show False by (rule int_case)
      next
        case False
        then have "52 \<le> N" by simp
        then have "(2::real) ^ 52 \<le> 2 ^ N" by (simp only: power_increasing_iff)
        moreover have "of_int M \<le> (2::real) ^ 53 - 1"
        proof -
          have "M \<le> 2 ^ 53 - 1" using M by simp
          then have "(of_int M :: real) \<le> of_int (2 ^ 53 - 1)" by (simp only: of_int_le_iff)
          then show ?thesis by simp
        qed
        ultimately have "y * 2 ^ 52 \<le> 2 ^ 53 - 1"
        proof -
          assume a: "(2::real) ^ 52 \<le> 2 ^ N" and b: "of_int M \<le> (2::real) ^ 53 - 1"
          have "y * 2 ^ N = of_int M" using yN by simp
          show ?thesis
          proof (cases "0 \<le> y")
            case True
            then have "y * 2 ^ 52 \<le> y * 2 ^ N" using a by (intro mult_left_mono)
            then show ?thesis using \<open>y * 2 ^ N = of_int M\<close> b by linarith
          next
            case False
            then have "y * 2 ^ 52 \<le> 0" by (simp add: mult_le_0_iff)
            then show ?thesis by simp
          qed
        qed
        then have a: "2 * (y * S) \<le> 4 * S - 1" by (simp add: S_def)
        have "2 * S \<le> x * S" using x S0 by simp
        then show False using a ys by linarith
      qed
    qed
  qed
  then show ?thesis unfolding nearest_double_def using dbl by (simp add: S_def)
qed

lemma num_chunks_ceiling:
  assumes "0 < c" "0 < d" "\<lfloor>float_div menv d (of_nat c)\<rfloor> = \<lfloor>d / of_nat c\<rfloor>"
  shows "num_chunks menv d c = \<lceil>d / of_nat c\<rceil>"
proof -
  let ?q = "d / of_nat c"
  have cpos: "(0::real) < of_nat c" using assms(1) by simp
  have "py_fmod d (of_nat c) = of_nat c * (?q - of_int \<lfloor>?q\<rfloor>)"
    using cpos by (simp add: py_fmod_def algebra_simps)
  then have "py_fmod d (of_nat c) > 0 \<longleftrightarrow> 0 < ?q - of_int \<lfloor>?q\<rfloor>"
    using cpos by (simp add: zero_less_mult_iff)
  moreover have "of_int \<lfloor>?q\<rfloor> \<le> ?q" by (rule of_int_floor_le)
  ultimately have "py_fmod d (of_nat c) > 0 \<longleftrightarrow> ?q \<noteq> of_int \<lfloor>?q\<rfloor>"
    by linarith
  moreover have "0 \<le> float_div menv d (of_nat c)"
  proof -
    have "0 \<le> ?q" using assms(2) cpos by simp
    then have "0 \<le> \<lfloor>float_div menv d (of_nat c)\<rfloor>" using assms(3) by simp
    then show ?thesis by (simp add: zero_le_floor)
  qed
  ultimately show ?thesis
    using assms(3) by (simp add: num_chunks_def py_int_def ceiling_altdef)
qed


lemma chunk_loop_Inr:
  "chunk_loop menv a c idxs cps w = (Inr r, w') \<Longrightarrow>
   \<forall>k<length idxs. ffmpeg_cut menv a ((idxs ! k) * c) c (next_tmp w + k) = None"
proof (induction idxs arbitrary: cps w)
  case Nil
  then show ?case by simp
next
  case (Cons i rest)
  let ?w1 = "run_cut (a, i * c, c, next_tmp w)
               (w\<lparr>files := files w @ [next_tmp w], next_tmp := Suc (next_tmp w)\<rparr>)"
  from Cons.prems have cut0: "ffmpeg_cut menv a (i * c) c (next_tmp w) = None"
    and r: "chunk_loop menv a c rest (cps @ [next_tmp w]) ?w1 = (Inr r, w')"
    by (auto simp: mkstemp_def split: option.splits)
  from Cons.IH [OF r]
  have rest: "\<forall>k<length rest. ffmpeg_cut menv a ((rest ! k) * c) c (Suc (next_tmp w) + k) = None"
    by (simp add: run_cut_def)
  show ?case
  proof (intro allI impI)
    fix k assume "k < length (i # rest)"
    then show "ffmpeg_cut menv a (((i # rest) ! k) * c) c (next_tmp w + k) = None"
      using cut0 rest by (cases k) auto
  qed
qed

text \<open>The seconds of audio that a cut at \<open>ss\<close> for \<open>t\<close> seconds takes out of an audio of
  \<open>d\<close> seconds (what \<open>ffmpeg\<close> does with \<open>ss\<close> and \<open>t\<close> on its input).\<close>

definition cut_seconds :: "real \<Rightarrow> nat \<Rightarrow> nat \<Rightarrow> real" where
  "cut_seconds d ss t = max 0 (min (of_nat t) (d - of_nat ss))"

lemma cut_seconds_bounds:
  assumes "0 < c" "0 < d" "i < nat \<lceil>d / of_nat c\<rceil>"
  shows "0 < cut_seconds d (i * c) c" "cut_seconds d (i * c) c \<le> of_nat c"
    "Suc i < nat \<lceil>d / of_nat c\<rceil> \<Longrightarrow> cut_seconds d (i * c) c = of_nat c"
proof -
  have cpos: "(0::real) < of_nat c" using assms(1) by simp
  have "int i < \<lceil>d / of_nat c\<rceil>" using assms(3) by linarith
  then have "of_int (int i) < d / of_nat c" by (simp add: less_ceiling_iff)
  then have lt: "of_nat i * of_nat c < d" using cpos by (simp add: pos_less_divide_eq)
  then show "0 < cut_seconds d (i * c) c" using cpos by (simp add: cut_seconds_def)
  show "cut_seconds d (i * c) c \<le> of_nat c" using cpos by (simp add: cut_seconds_def)
  assume "Suc i < nat \<lceil>d / of_nat c\<rceil>"
  then have "int (Suc i) < \<lceil>d / of_nat c\<rceil>" by linarith
  then have "of_int (int (Suc i)) < d / of_nat c" by (simp add: less_ceiling_iff)
  then have "(of_nat i + 1) * of_nat c < d"
    using cpos by (simp add: pos_less_divide_eq add.commute)
  then have "of_nat c \<le> d - of_nat i * of_nat c" by (simp add: algebra_simps)
  then show "cut_seconds d (i * c) c = of_nat c" using cpos by (simp add: cut_seconds_def)
qed

text \<open>
  C9: for an audio of positive duration \<open>d\<close> (a float, below \<open>2^53\<close> seconds) and a
  positive chunk duration \<open>c\<close>, when the probe and every \<open>ffmpeg\<close> run succeed,
  \<open>split_audio_into_chunks\<close> returns exactly \<open>ceil(d / c)\<close> chunk files, all of them
  new, and it has run \<open>ffmpeg\<close> exactly once for each, in order, and made no other
  run: the \<open>i\<close>-th run reads the audio from offset \<open>i * c\<close> for \<open>c\<close> seconds and writes
  the \<open>i\<close>-th chunk file. What that run takes out of the audio is positive and at most
  \<open>c\<close> seconds, and \<open>c\<close> seconds for every chunk but the last. The float division rounds to a nearest double,
  which never moves the quotient across an integer (\<open>floor_nearest_double\<close>). An audio
  of 130 seconds with \<open>c = 60\<close> gives 3 chunks, cut at 0, 60 and 120, of 60, 60 and 10
  seconds.
\<close>

theorem split_audio_into_chunks_count:
  assumes "0 < c" and "0 < d" and "is_double d" and "d < 2 ^ 53"
    and "ffprobe_duration menv a = Inr d"
    and "nearest_double (float_div menv d (of_nat c)) (d / of_nat c)"
    and "\<forall>i<nat \<lceil>d / of_nat c\<rceil>. ffmpeg_cut menv a (i * c) c (next_tmp w + i) = None"
  shows "\<exists>chunk_paths w'.
           split_audio_into_chunks menv a c w = (Inr chunk_paths, w')
           \<and> int (length chunk_paths) = \<lceil>d / of_nat c\<rceil>
           \<and> chunk_paths = [next_tmp w..<next_tmp w + length chunk_paths]
           \<and> files w' = files w @ chunk_paths
           \<and> cut_runs w' = cut_runs w
                @ map (\<lambda>i. (a, i * c, c, chunk_paths ! i)) [0..<length chunk_paths]
           \<and> (\<forall>i<length chunk_paths.
                 (case cut_runs w' ! (length (cut_runs w) + i) of
                    (src, ss, t, dst) \<Rightarrow>
                      src = a \<and> ss = i * c \<and> t = c \<and> dst = chunk_paths ! i
                      \<and> 0 < cut_seconds d ss t \<and> cut_seconds d ss t \<le> of_nat c
                      \<and> (Suc i < length chunk_paths \<longrightarrow> cut_seconds d ss t = of_nat c)))"
proof -
  let ?n = "nat \<lceil>d / of_nat c\<rceil>"
  let ?ps = "[next_tmp w..<next_tmp w + ?n]"
  let ?w' = "w\<lparr>files := files w @ ?ps, next_tmp := next_tmp w + ?n,
               cut_runs := cut_runs w @ map (\<lambda>i. (a, i * c, c, ?ps ! i)) [0..<?n]\<rparr>"
  have fl: "\<lfloor>float_div menv d (of_nat c)\<rfloor> = \<lfloor>d / of_nat c\<rfloor>"
    using assms(3,2,4,1,6) by (rule floor_nearest_double)
  have n: "num_chunks menv d c = \<lceil>d / of_nat c\<rceil>"
    using assms(1,2) fl by (rule num_chunks_ceiling)
  have pos: "0 \<le> \<lceil>d / of_nat c\<rceil>" using assms(1,2) by (simp add: ceiling_le_zero le_less)
  have cuts: "\<forall>k<length [0..<?n]. ffmpeg_cut menv a (([0..<?n] ! k) * c) c (next_tmp w + k) = None"
    using assms(7) by simp
  have split: "split_audio_into_chunks menv a c w = (Inr ?ps, ?w')"
    using assms(1,5) n chunk_loop_ok [OF cuts, of "[]"] cut_runs_range [of a c ?n "next_tmp w"]
    by (simp add: split_audio_into_chunks_def)
  have len: "int (length ?ps) = \<lceil>d / of_nat c\<rceil>"
    using pos by simp
  have paths: "?ps = [next_tmp w..<next_tmp w + length ?ps]" by simp
  have fs: "files ?w' = files w @ ?ps" by simp
  have runs: "cut_runs ?w' = cut_runs w
      @ map (\<lambda>i. (a, i * c, c, ?ps ! i)) [0..<length ?ps]"
    by simp
  have secs: "\<forall>i<length ?ps.
      (case cut_runs ?w' ! (length (cut_runs w) + i) of
         (src, ss, t, dst) \<Rightarrow>
           src = a \<and> ss = i * c \<and> t = c \<and> dst = ?ps ! i
           \<and> 0 < cut_seconds d ss t \<and> cut_seconds d ss t \<le> of_nat c
           \<and> (Suc i < length ?ps \<longrightarrow> cut_seconds d ss t = of_nat c))"
  proof (intro allI impI)
    fix i assume i: "i < length ?ps"
    then have i': "i < ?n" by simp
    have run: "cut_runs ?w' ! (length (cut_runs w) + i) = (a, i * c, c, ?ps ! i)"
      using i' by simp
    show "case cut_runs ?w' ! (length (cut_runs w) + i) of
         (src, ss, t, dst) \<Rightarrow>
           src = a \<and> ss = i * c \<and> t = c \<and> dst = ?ps ! i
           \<and> 0 < cut_seconds d ss t \<and> cut_seconds d ss t \<le> of_nat c
           \<and> (Suc i < length ?ps \<longrightarrow> cut_seconds d ss t = of_nat c)"
      unfolding run using cut_seconds_bounds [OF assms(1,2) i'] by simp
  qed
  from split len paths fs runs secs show ?thesis by blast
qed

theorem split_audio_into_chunks_count_witness:
  "(0::nat) < 60 \<and> (0::real) < 130 \<and> is_double 130 \<and> (130::real) < 2 ^ 53
   \<and> ffprobe_duration (example_media_env None) 1 = Inr 130
   \<and> nearest_double (float_div (example_media_env None) 130 (of_nat 60)) (130 / of_nat 60)
   \<and> split_audio_into_chunks (example_media_env None) 1 60
        ((example_world ''VIDEO'' [])\<lparr>files := [0, 1], next_tmp := 2\<rparr>)
       = (Inr [2, 3, 4],
          (example_world ''VIDEO'' [])\<lparr>files := [0, 1, 2, 3, 4], next_tmp := 5,
             cut_runs := [(1, 0, 60, 2), (1, 60, 60, 3), (1, 120, 60, 4)]\<rparr>)
   \<and> int (length [2, 3, 4 :: nat]) = \<lceil>(130::real) / of_nat 60\<rceil>
   \<and> [(1, 0, 60, 2), (1, 60, 60, 3), (1, 120, 60, 4)]
       = map (\<lambda>i. (1 :: nat, i * 60, 60 :: nat, [2, 3, 4 :: nat] ! i))
           [0..<length [2, 3, 4 :: nat]]
   \<and> cut_seconds 130 0 60 = 60 \<and> cut_seconds 130 60 60 = 60 \<and> cut_seconds 130 120 60 = 10"
proof -
  let ?w = "(example_world ''VIDEO'' [])\<lparr>files := [0, 1], next_tmp := 2\<rparr>"
  let ?w' = "(example_world ''VIDEO'' [])\<lparr>files := [0, 1, 2, 3, 4], next_tmp := 5,
      cut_runs := [(1, 0, 60, 2), (1, 60, 60, 3), (1, 120, 60, 4)]\<rparr>"
  have c: "(0::nat) < 60" and d: "(0::real) < 130" and b: "(130::real) < 2 ^ 53" by simp_all
  have dbl: "is_double 130" using is_double_int [of 130] by simp
  have p: "ffprobe_duration (example_media_env None) 1 = Inr 130"
    by (simp add: example_media_env_def)
  have "nearest_double (of_int 4878899596318037 / 2 ^ 51) (130 / 60)"
    by (rule nearest_double_binade) simp_all
  then have f: "nearest_double (float_div (example_media_env None) 130 (of_nat 60))
      (130 / of_nat 60)"
    by (simp add: example_media_env_def)
  have cuts: "\<forall>i<nat \<lceil>(130::real) / of_nat 60\<rceil>.
      ffmpeg_cut (example_media_env None) 1 (i * 60) 60 (next_tmp ?w + i) = None"
    by (simp add: example_media_env_def)
  have r: "split_audio_into_chunks (example_media_env None) 1 60 ?w = (Inr [2, 3, 4], ?w')"
    by (simp add: job_eval upt_conv_Cons)
  have w0: "cut_runs ?w = []" by (simp add: example_world_def)
  have w1: "cut_runs ?w' = [(1, 0, 60, 2), (1, 60, 60, 3), (1, 120, 60, 4)]" by simp
  have s: "cut_seconds 130 0 60 = 60" "cut_seconds 130 60 60 = 60" "cut_seconds 130 120 60 = 10"
    by (simp_all add: cut_seconds_def)
  from split_audio_into_chunks_count [OF c d dbl b p f cuts]
  obtain cps w' where
    e: "split_audio_into_chunks (example_media_env None) 1 60 ?w = (Inr cps, w')"
    and l: "int (length cps) = \<lceil>(130::real) / of_nat 60\<rceil>"
    and m: "cut_runs w' = cut_runs ?w
          @ map (\<lambda>i. (1, i * 60, 60, cps ! i)) [0..<length cps]"
    by blast
  from e r have eq: "cps = [2, 3, 4]" "w' = ?w'" by simp_all
  have l': "int (length [2, 3, 4 :: nat]) = \<lceil>(130::real) / of_nat 60\<rceil>"
    using l unfolding eq .
  have m': "[(1, 0, 60, 2), (1, 60, 60, 3), (1, 120, 60, 4)]
      = map (\<lambda>i. (1 :: nat, i * 60, 60 :: nat, [2, 3, 4 :: nat] ! i))
          [0..<length [2, 3, 4 :: nat]]"
    using m unfolding eq w0 w1 by simp
  show ?thesis using c d dbl b p f r l' m' s by blast
qed

section \<open>Claims about \<open>process_job\<close>\<close>

text \<open>
  C7 fails on the code. In \<open>split_audio_into_chunks\<close> the chunk's file is created by
  \<open>mkstemp\<close> before \<open>ffmpeg\<close> runs and its path is appended to \<open>chunk_paths\<close> only
  after; when \<open>ffmpeg\<close> fails on a chunk, the handler removes the chunks appended so
  far and not the file of the failing chunk, and \<open>process_job\<close> never learns its path.
  Below, the audio lasts 130 seconds and the run of the second chunk (offset 50) fails:
  the job completes, video and audio files are removed, and the file 3 of the failing
  chunk stays on local storage.
\<close>

theorem process_job_leaves_chunk_file:
  "files (example_world ''VIDEO'' []) = []
   \<and> split_audio_into_chunks (example_media_env (Some 50)) 1 50
        ((example_world ''VIDEO'' [])\<lparr>files := [0, 1], next_tmp := 2\<rparr>)
       = (Inl (Err Exception ''Failed to split audio into chunks: Invalid data found''),
          (example_world ''VIDEO'' [])\<lparr>files := [0, 1, 3], next_tmp := 4,
             cut_runs := [(1, 0, 50, 2), (1, 50, 50, 3)]\<rparr>)
   \<and> fst (process_job example_cfg (example_embed_env 1408) (example_speech_env False)
          (example_media_env (Some 50)) 20 (to_claimed (example_job 1 Processing 0 0))
          (example_world ''VIDEO'' [])) = None
   \<and> files (snd (process_job example_cfg (example_embed_env 1408) (example_speech_env False)
          (example_media_env (Some 50)) 20 (to_claimed (example_job 1 Processing 0 0))
          (example_world ''VIDEO'' []))) = [3]
   \<and> map status (enrichment_jobs (snd (process_job example_cfg (example_embed_env 1408)
          (example_speech_env False) (example_media_env (Some 50)) 20
          (to_claimed (example_job 1 Processing 0 0)) (example_world ''VIDEO'' []))))
       = [Completed]"
  by (simp add: job_eval queue_eval embed_eval upt_conv_Cons)

lemma first_child_mem: "first_child c cs \<in> set (c # cs)"
  by (induction cs arbitrary: c) auto

lemma first_child_le_head: "child_id (first_child c cs) \<le> child_id c"
proof (induction cs arbitrary: c)
  case Nil
  then show ?case by simp
next
  case (Cons a cs)
  show ?case using Cons.IH [of a] Cons.IH [of c] by auto
qed

lemma first_child_le: "d \<in> set (c # cs) \<Longrightarrow> child_id (first_child c cs) \<le> child_id d"
proof (induction cs arbitrary: c)
  case Nil
  then show ?case by simp
next
  case (Cons a cs)
  show ?case
  proof (cases "child_id a < child_id c")
    case True
    then show ?thesis
      using Cons.prems Cons.IH [of a] first_child_le_head [of a cs] by auto
  next
    case False
    then show ?thesis
      using Cons.prems Cons.IH [of c] first_child_le_head [of c cs] by auto
  qed
qed

lemma carousel_first_child:
  assumes "media_type post = ''CAROUSEL_ALBUM''"
    and "filter (\<lambda>c. child_post_id c = post_id post \<and> child_client_id c = client_id)
           (instagram_post_children w) = c # cs"
  shows "\<exists>f\<in>set (c # cs). (\<forall>d\<in>set (c # cs). child_id f \<le> child_id d)
           \<and> get_primary_media_url w post client_id = child_url f"
  using assms first_child_mem [of c cs] first_child_le [of _ c cs]
  by (auto simp: get_primary_media_url_def)

lemma child_url_image: "child_media_type c = ''IMAGE'' \<Longrightarrow> child_url c = child_media_url c"
  by (simp add: child_url_def)

lemma child_url_video:
  "child_media_type c = ''VIDEO'' \<Longrightarrow> truthy (child_thumbnail_url c) \<Longrightarrow>
   child_url c = child_thumbnail_url c"
  by (simp add: child_url_def)

lemma carousel_without_children:
  assumes "fetch_content w (cj_content_type job) (cj_content_id job) (cj_client_id job) = Inr post"
    and "media_type post = ''CAROUSEL_ALBUM''"
    and "filter (\<lambda>c. child_post_id c = post_id post \<and> child_client_id c = cj_client_id job)
           (instagram_post_children w) = []"
  shows "process_job cfg eenv senv menv now job w
           = (None, w\<lparr>enrichment_jobs := mark_job_completed now (enrichment_jobs w) (cj_id job)\<rparr>)"
  using assms
  by (simp add: process_job_def process_job_try_def get_primary_media_url_def complete_job_def
      no_locals_def cleanup_temp_files_def)

text \<open>
  C8 fails on the code where a carousel's first child is a video without a thumbnail
  URL: \<open>child[2] == 'VIDEO' and child[1] or child[0]\<close> then gives the child's media
  URL, the video itself, where the comment beside it and the claim say the thumbnail
  URL is used for a video. (The rest of the claim holds: \<open>carousel_first_child\<close>,
  \<open>child_url_image\<close>, \<open>child_url_video\<close> and \<open>carousel_without_children\<close> above.)
\<close>

theorem carousel_video_child_without_thumbnail:
  "get_primary_media_url
     (example_world ''CAROUSEL_ALBUM''
        [example_child 9 ''IMAGE'' None, example_child 7 ''VIDEO'' None])
     (example_post ''CAROUSEL_ALBUM'') ''client''
     = child_media_url (example_child 7 ''VIDEO'' None)
   \<and> child_media_url (example_child 7 ''VIDEO'' None) = Some [109, 112, 52]
   \<and> child_media_type (example_child 7 ''VIDEO'' None) = ''VIDEO''
   \<and> child_thumbnail_url (example_child 7 ''VIDEO'' None) = None"
  by (simp add: job_eval example_child_def)

text \<open>The embedding invariant of the store: every embedding held by a post has length
  1408.\<close>

definition embeddings_ok :: "'v world \<Rightarrow> bool" where
  "embeddings_ok w =
     list_all (\<lambda>p. case embedding p of None \<Rightarrow> True | Some v \<Rightarrow> length v = 1408)
       (instagram_posts w)"

lemma embeddings_ok_posts:
  "instagram_posts w' = instagram_posts w \<Longrightarrow> embeddings_ok w' = embeddings_ok w"
  by (simp add: embeddings_ok_def)

lemma posts_remove_if_exists [simp]:
  "instagram_posts (remove_if_exists p w) = instagram_posts w"
  by (simp add: remove_if_exists_def)

lemma posts_fold_remove [simp]:
  "instagram_posts (fold remove_if_exists ps w) = instagram_posts w"
  by (induction ps arbitrary: w) simp_all

lemma posts_cleanup [simp]:
  "instagram_posts (cleanup_temp_files ps w) = instagram_posts w"
  unfolding cleanup_temp_files_def
  by (induction ps arbitrary: w) (simp_all split: option.splits)

lemma posts_mkstemp [simp]: "instagram_posts (snd (mkstemp w)) = instagram_posts w"
  by (simp add: mkstemp_def)

lemma posts_chunk_loop [simp]:
  "instagram_posts (snd (chunk_loop menv a c idxs cps w)) = instagram_posts w"
  by (induction idxs arbitrary: cps w)
    (simp_all add: mkstemp_def run_cut_def split: option.splits)

lemma posts_split [simp]:
  "instagram_posts (snd (split_audio_into_chunks menv a c w)) = instagram_posts w"
proof (cases "ffprobe_duration menv a")
  case (Inl e)
  then show ?thesis by (simp add: split_audio_into_chunks_def)
next
  case (Inr d)
  obtain r w' where l: "chunk_loop menv a c [0..<nat (num_chunks menv d c)] [] w = (r, w')"
    by (cases "chunk_loop menv a c [0..<nat (num_chunks menv d c)] [] w") auto
  have "instagram_posts w' = instagram_posts w"
    using posts_chunk_loop [of menv a c "[0..<nat (num_chunks menv d c)]" "[]" w] l by simp
  then show ?thesis using Inr l
    by (cases r) (auto simp: split_audio_into_chunks_def)
qed

lemma posts_process_video [simp]:
  "instagram_posts (snd (process_video_for_transcription menv url w)) = instagram_posts w"
  by (simp add: process_video_for_transcription_def process_video_failed_def mkstemp_def
      split: option.splits sum.splits)

lemma posts_transcribe_video [simp]:
  "instagram_posts (snd (snd (transcribe_video senv menv vd w))) = instagram_posts w"
proof (cases "vd_has_audio vd \<and> vd_audio_path vd \<noteq> None \<and> \<not> vd_duration_seconds vd \<le> 60")
  case False
  then show ?thesis
    by (auto simp: transcribe_video_def split: option.splits sum.splits)
next
  case True
  then obtain a where a: "vd_audio_path vd = Some a" by auto
  obtain r w' where l: "split_audio_into_chunks menv a 50 w = (r, w')"
    by (cases "split_audio_into_chunks menv a 50 w") auto
  have "instagram_posts w' = instagram_posts w"
    using posts_split [of menv a 50 w] l by simp
  then show ?thesis using True a l
    by (cases r) (auto simp: transcribe_video_def split: sum.splits)
qed

lemma store_transcript_ok:
  "embeddings_ok w \<Longrightarrow> embeddings_ok (store_transcript cid cl t h l w)"
  by (auto simp: embeddings_ok_def store_transcript_def list_all_iff)

lemma embed_and_complete_ok:
  "embeddings_ok w \<Longrightarrow> embeddings_ok (snd (snd (embed_and_complete eenv now job t url ls w)))"
proof (cases "fst (generate_multimodal_embedding eenv (Some t) url)")
  case (Inl e)
  then show "embeddings_ok w \<Longrightarrow> ?thesis" by (simp add: embed_and_complete_def)
next
  case (Inr v)
  then have "length v = 1408" using generate_Inr by blast
  then show "embeddings_ok w \<Longrightarrow> ?thesis" using Inr
    by (auto simp: embed_and_complete_def embeddings_ok_def store_embedding_def complete_job_def
        list_all_iff)
qed

lemma process_video_post_ok:
  assumes "embeddings_ok w"
  shows "embeddings_ok (snd (snd (process_video_post eenv senv menv now job post w)))"
proof (cases "process_video_for_transcription menv (media_url post) w")
  case (Pair r w1)
  have w1: "embeddings_ok w1"
    using assms Pair posts_process_video [of menv "media_url post" w]
    by (simp add: embeddings_ok_def)
  show ?thesis
  proof (cases r)
    case (Inl e)
    then show ?thesis using Pair w1 by (simp add: process_video_post_def)
  next
    case (Inr vd)
    obtain tr chunk_paths w2 where tv: "transcribe_video senv menv vd w1 = (tr, chunk_paths, w2)"
      by (cases "transcribe_video senv menv vd w1") auto
    have "instagram_posts w2 = instagram_posts w1"
      using posts_transcribe_video [of senv menv vd w1] tv by simp
    then have "embeddings_ok w2" using w1 by (simp add: embeddings_ok_def)
    then have "embeddings_ok (store_transcript (cj_content_id job) (cj_client_id job) tr
        (vd_has_audio vd) ''en'' w2)"
      by (rule store_transcript_ok)
    then show ?thesis using Pair Inr tv
      by (simp add: process_video_post_def embed_and_complete_ok)
  qed
qed

lemma process_job_try_ok:
  assumes "embeddings_ok w"
  shows "embeddings_ok (snd (snd (process_job_try eenv senv menv now job w)))"
proof -
  have c: "embeddings_ok (complete_job now (cj_id job) w)"
    using assms by (simp add: embeddings_ok_def complete_job_def)
  show ?thesis
    using assms c
    by (simp add: process_job_try_def process_video_post_ok embed_and_complete_ok
        split: sum.splits)
qed

lemma process_job_ok:
  assumes "embeddings_ok w"
  shows "embeddings_ok (snd (process_job cfg eenv senv menv now job w))"
proof -
  obtain outcome ls w1 where t: "process_job_try eenv senv menv now job w = (outcome, ls, w1)"
    by (cases "process_job_try eenv senv menv now job w") auto
  have w1: "embeddings_ok w1" using process_job_try_ok [OF assms, of eenv senv menv now job] t
    by simp
  show ?thesis
    using t w1
    by (auto simp: process_job_def embeddings_ok_def split: option.splits sum.splits)
qed


section \<open>Claim about the dimension of embeddings\<close>

text \<open>
  C1: \<open>generate_multimodal_embedding\<close> either raises or returns a vector of length
  exactly 1408, and the vector it returns is the one the embedding service answered
  with. Whenever the service's answer to the call it made is missing or of any other
  length, the function raises an exception, so such an answer never reaches the caller.
  Nor is it persisted: \<open>process_job\<close> keeps the invariant that every embedding held by
  a post has length 1408.
\<close>

theorem generate_multimodal_embedding_dimension:
  "(\<forall>v. fst (generate_multimodal_embedding env t url) = Inr v \<longrightarrow>
        length v = 1408
        \<and> (\<exists>buffer ctx.
              Call_get_embeddings buffer ctx 1408
                \<in> set (snd (generate_multimodal_embedding env t url))
              \<and> get_embeddings env buffer ctx 1408 = Inr (Some v)))
   \<and> (\<forall>buffer ctx n w.
        Call_get_embeddings buffer ctx n
          \<in> set (snd (generate_multimodal_embedding env t url)) \<longrightarrow>
        get_embeddings env buffer ctx n = Inr w \<longrightarrow>
        w = None \<or> length (the w) \<noteq> 1408 \<longrightarrow>
        (\<exists>m. fst (generate_multimodal_embedding env t url) = Inl (Err Exception m)))
   \<and> (embeddings_ok world \<longrightarrow>
        embeddings_ok (snd (process_job cfg env senv menv now job world)))"
proof (intro conjI allI impI)
  fix v
  assume r: "fst (generate_multimodal_embedding env t url) = Inr v"
  from generate_Inr [OF r] show "length v = 1408" by blast
  from generate_Inr [OF r]
  show "\<exists>buffer ctx.
          Call_get_embeddings buffer ctx 1408
            \<in> set (snd (generate_multimodal_embedding env t url))
          \<and> get_embeddings env buffer ctx 1408 = Inr (Some v)"
    by fastforce
next
  fix buffer ctx n w
  assume "Call_get_embeddings buffer ctx n
            \<in> set (snd (generate_multimodal_embedding env t url))"
    and "get_embeddings env buffer ctx n = Inr w"
    and "w = None \<or> length (the w) \<noteq> 1408"
  then show "\<exists>m. fst (generate_multimodal_embedding env t url) = Inl (Err Exception m)"
    by (rule generate_bad_response)
next
  assume "embeddings_ok world"
  then show "embeddings_ok (snd (process_job cfg env senv menv now job world))"
    by (rule process_job_ok)
qed

lemma example_image_job_1408:
  "process_job example_cfg (example_embed_env 1408) (example_speech_env False)
     (example_media_env None) 20 (to_claimed (example_job 1 Processing 0 0))
     (example_world ''IMAGE'' [])
   = (None,
      (example_world ''IMAGE'' [])
        \<lparr>enrichment_jobs :=
           [(example_job 1 Completed 0 0)\<lparr>completed_at := Some 20, updated_at := 20\<rparr>],
         instagram_posts :=
           [(example_post ''IMAGE'')\<lparr>embedding := Some (replicate 1408 0),
              embedding_model := Some ''embedding-001'', embedded_at := Some 20\<rparr>]\<rparr>)"
  by (simp add: job_eval queue_eval embed_eval)

lemma example_image_job_512:
  "process_job example_cfg (example_embed_env 512) (example_speech_env False)
     (example_media_env None) 20 (to_claimed (example_job 1 Processing 0 0))
     (example_world ''IMAGE'' [])
   = (None,
      (example_world ''IMAGE'' [])
        \<lparr>enrichment_jobs :=
           [(example_job 1 Pending 1 320)
              \<lparr>error_message := Some (''Failed to generate multimodal embedding: ''
                  @ ''Invalid embedding received: expected 1408 dimensions, got 512''),
               updated_at := 20\<rparr>]\<rparr>)"
  by (simp add: job_eval queue_eval embed_eval show_nat.simps digit_char_def)

theorem generate_multimodal_embedding_dimension_witness:
  "fst (generate_multimodal_embedding (example_embed_env 1408) (Some [104, 105]) (Some [117]))
     = Inr (replicate 1408 0)
   \<and> length (replicate 1408 (0::int)) = 1408
   \<and> get_embeddings (example_embed_env 512) [137, 80, 78] (Some [104, 105]) 1408
       = Inr (Some (replicate 512 0))
   \<and> (\<exists>m. fst (generate_multimodal_embedding (example_embed_env 512) (Some [104, 105])
               (Some [117])) = Inl (Err Exception m))
   \<and> embeddings_ok (example_world ''IMAGE'' [])
   \<and> map embedding (instagram_posts (snd (process_job example_cfg (example_embed_env 1408)
        (example_speech_env False) (example_media_env None) 20
        (to_claimed (example_job 1 Processing 0 0)) (example_world ''IMAGE'' []))))
       = [Some (replicate 1408 0)]
   \<and> map embedding (instagram_posts (snd (process_job example_cfg (example_embed_env 512)
        (example_speech_env False) (example_media_env None) 20
        (to_claimed (example_job 1 Processing 0 0)) (example_world ''IMAGE'' []))))
       = [None]
   \<and> embeddings_ok (snd (process_job example_cfg (example_embed_env 512)
        (example_speech_env False) (example_media_env None) 20
        (to_claimed (example_job 1 Processing 0 0)) (example_world ''IMAGE'' [])))"
proof -
  note good = generate_multimodal_embedding_dimension
    [where env = "example_embed_env 1408" and t = "Some [104, 105]"
       and url = "Some [117]"]
  note bad = generate_multimodal_embedding_dimension
    [where env = "example_embed_env 512" and t = "Some [104, 105]"
       and url = "Some [117]" and world = "example_world ''IMAGE'' []"
       and cfg = example_cfg and senv = "example_speech_env False"
       and menv = "example_media_env None" and now = 20
       and job = "to_claimed (example_job 1 Processing 0 0)"]
  have r: "fst (generate_multimodal_embedding (example_embed_env 1408) (Some [104, 105])
      (Some [117])) = Inr (replicate 1408 0)"
    by (simp add: example_run_1408)
  have len: "length (replicate 1408 (0::int)) = 1408"
    using good r by blast
  have call: "Call_get_embeddings [137, 80, 78] (Some [104, 105]) 1408
      \<in> set (snd (generate_multimodal_embedding (example_embed_env 512) (Some [104, 105])
            (Some [117])))"
    by (simp add: example_run_512)
  have resp: "get_embeddings (example_embed_env 512) [137, 80, 78] (Some [104, 105]) 1408
      = Inr (Some (replicate 512 0))"
    by (simp add: example_embed_env_def)
  have short: "Some (replicate 512 (0::int)) = None
      \<or> length (the (Some (replicate 512 (0::int)))) \<noteq> 1408"
    by simp
  have raised: "\<exists>m. fst (generate_multimodal_embedding (example_embed_env 512)
      (Some [104, 105]) (Some [117])) = Inl (Err Exception m)"
    using bad call resp short by blast
  have ok0: "embeddings_ok (example_world ''IMAGE'' [])"
    by (simp add: embeddings_ok_def example_world_def example_post_def)
  have ok1: "embeddings_ok (snd (process_job example_cfg (example_embed_env 512)
        (example_speech_env False) (example_media_env None) 20
        (to_claimed (example_job 1 Processing 0 0)) (example_world ''IMAGE'' [])))"
    using bad ok0 by blast
  have s1: "map embedding (instagram_posts (snd (process_job example_cfg
        (example_embed_env 1408) (example_speech_env False) (example_media_env None) 20
        (to_claimed (example_job 1 Processing 0 0)) (example_world ''IMAGE'' []))))
       = [Some (replicate 1408 0)]"
    unfolding example_image_job_1408 by simp
  have s2: "map embedding (instagram_posts (snd (process_job example_cfg
        (example_embed_env 512) (example_speech_env False) (example_media_env None) 20
        (to_claimed (example_job 1 Processing 0 0)) (example_world ''IMAGE'' []))))
       = [None]"
    unfolding example_image_job_512 by (simp add: example_world_def example_post_def)
  show ?thesis using r len resp raised ok0 ok1 s1 s2 by blast
qed

end
